theory Spec2Isabelle
  imports Main "HOL-Library.Multiset"
begin

section \<open>Regular expressions as the finder uses them\<close>

text \<open>
  \<^verbatim>\<open>globToRegex\<close> builds the source text of a regular expression and hands it to
  \<^verbatim>\<open>new RegExp\<close>; the walker later calls \<^verbatim>\<open>test\<close> on it. The engine is a
  built-in of the host, so it is modelled here: a syntax tree for the constructs the source
  text can contain, the language each construct denotes, and a matcher by derivatives that
  decides membership and can be evaluated.

  Strings are lists of 8-bit characters. Of the line terminators of the host language only
  line feed and carriage return exist in that range; \<^verbatim>\<open>.\<close> without the \<^verbatim>\<open>s\<close> flag matches
  every character but a line terminator.
\<close>

datatype regex =
    Never
  | Eps
  | Chr char
  | NotChr char
  | Dot
  | Seq regex regex
  | Alt regex regex
  | Star regex
  | Plus regex
  | Opt regex

abbreviation backslash :: char where
  "backslash \<equiv> CHR 0x5C"

definition line_terminator :: "char \<Rightarrow> bool" where
  "line_terminator c = (c = CHR 0x0A \<or> c = CHR 0x0D)"

definition conc :: "string set \<Rightarrow> string set \<Rightarrow> string set" where
  "conc A B = {u @ v | u v. u \<in> A \<and> v \<in> B}"

inductive_set star :: "string set \<Rightarrow> string set" for A :: "string set" where
  star_nil: "[] \<in> star A"
| star_app: "u \<in> A \<Longrightarrow> v \<in> star A \<Longrightarrow> u @ v \<in> star A"

primrec lang :: "regex \<Rightarrow> string set" where
  "lang Never = {}"
| "lang Eps = {[]}"
| "lang (Chr c) = {[c]}"
| "lang (NotChr c) = {[d] | d. d \<noteq> c}"
| "lang Dot = {[d] | d. \<not> line_terminator d}"
| "lang (Seq r s) = conc (lang r) (lang s)"
| "lang (Alt r s) = lang r \<union> lang s"
| "lang (Star r) = star (lang r)"
| "lang (Plus r) = conc (lang r) (star (lang r))"
| "lang (Opt r) = insert [] (lang r)"

primrec nullable :: "regex \<Rightarrow> bool" where
  "nullable Never = False"
| "nullable Eps = True"
| "nullable (Chr c) = False"
| "nullable (NotChr c) = False"
| "nullable Dot = False"
| "nullable (Seq r s) = (nullable r \<and> nullable s)"
| "nullable (Alt r s) = (nullable r \<or> nullable s)"
| "nullable (Star r) = True"
| "nullable (Plus r) = nullable r"
| "nullable (Opt r) = True"

primrec deriv :: "char \<Rightarrow> regex \<Rightarrow> regex" where
  "deriv a Never = Never"
| "deriv a Eps = Never"
| "deriv a (Chr c) = (if a = c then Eps else Never)"
| "deriv a (NotChr c) = (if a = c then Never else Eps)"
| "deriv a Dot = (if line_terminator a then Never else Eps)"
| "deriv a (Seq r s) =
     (if nullable r then Alt (Seq (deriv a r) s) (deriv a s) else Seq (deriv a r) s)"
| "deriv a (Alt r s) = Alt (deriv a r) (deriv a s)"
| "deriv a (Star r) = Seq (deriv a r) (Star r)"
| "deriv a (Plus r) = Seq (deriv a r) (Star r)"
| "deriv a (Opt r) = deriv a r"

text \<open>
  \<^verbatim>\<open>RegExp.prototype.test\<close> for an expression anchored at both ends and without flags:
  the whole string has to be in the language, and no state is kept between calls.
\<close>

primrec test :: "regex \<Rightarrow> string \<Rightarrow> bool" where
  "test r [] = nullable r"
| "test r (a # s) = test (deriv a r) s"

subsection \<open>The constructor, for the source texts the finder emits\<close>

text \<open>
  The fourteen syntax characters of the pattern grammar. A backslash before one of them is
  an identity escape; any of them bare, outside the three fixed groups read below, makes
  the model give up (\<open>None\<close>) rather than guess a meaning.
\<close>

definition syntax_character :: "char \<Rightarrow> bool" where
  "syntax_character c = (c \<in> set (backslash # ''^$.*+?()[]{}|''))"

definition cons_atom :: "regex \<Rightarrow> regex list option \<Rightarrow> regex list option" where
  "cons_atom r rs = map_option ((#) r) rs"

function parse_atoms :: "string \<Rightarrow> regex list option" where
  "parse_atoms [] = Some []"
| "parse_atoms (c # cs) =
     (if c = backslash then
        (case cs of
           [] \<Rightarrow> None
         | d # ds \<Rightarrow> if syntax_character d then cons_atom (Chr d) (parse_atoms ds) else None)
      else if take 5 (c # cs) = ''[^/]*'' then
        cons_atom (Star (NotChr CHR ''/'')) (parse_atoms (drop 5 (c # cs)))
      else if take 4 (c # cs) = ''[^/]'' then
        cons_atom (NotChr CHR ''/'') (parse_atoms (drop 4 (c # cs)))
      else if take 8 (c # cs) = ''(?:.+/)?'' then
        cons_atom (Opt (Seq (Plus Dot) (Chr CHR ''/''))) (parse_atoms (drop 8 (c # cs)))
      else if syntax_character c then None
      else cons_atom (Chr c) (parse_atoms cs))"
  by pat_completeness auto
termination
  by (relation "measure length") auto

text \<open>
  \<^verbatim>\<open>new RegExp(src)\<close>: \<open>None\<close> stands for a \<^verbatim>\<open>SyntaxError\<close> or for a source text outside
  the fragment above. The result is the body between \<^verbatim>\<open>^\<close> and \<^verbatim>\<open>$\<close>.
\<close>

definition new_RegExp :: "string \<Rightarrow> regex option" where
  "new_RegExp src =
     (case src of
        [] \<Rightarrow> None
      | c # body \<Rightarrow>
          if c = CHR ''^'' \<and> body \<noteq> [] \<and> last body = CHR ''$''
          then map_option (\<lambda>atoms. foldr Seq atoms Eps) (parse_atoms (butlast body))
          else None)"

section \<open>The glob compiler\<close>

text \<open>
  \<^verbatim>\<open>pattern.replace(/[.+^${}()|[\]\\]/g, "\\$&")\<close>: a backslash goes before each of the
  twelve characters of the class.
\<close>

definition escaped_character :: "char \<Rightarrow> bool" where
  "escaped_character c = (c \<in> set (''.+^${}()|[]'' @ [backslash]))"

definition escape_metacharacters :: "string \<Rightarrow> string" where
  "escape_metacharacters s =
     concat (map (\<lambda>c. if escaped_character c then [backslash, c] else [c]) s)"

text \<open>\<^verbatim>\<open>.replace(/\?/g, "[^/]")\<close>\<close>

definition replace_question :: "string \<Rightarrow> string" where
  "replace_question s = concat (map (\<lambda>c. if c = CHR ''?'' then ''[^/]'' else [c]) s)"

text \<open>
  \<^verbatim>\<open>.replace(/\*\*\//g, "(?:.+/)?")\<close>: the occurrences are found from the left and do not
  overlap.
\<close>

fun replace_globstar :: "string \<Rightarrow> string" where
  "replace_globstar (a # b # c # s) =
     (if a = CHR ''*'' \<and> b = CHR ''*'' \<and> c = CHR ''/''
      then ''(?:.+/)?'' @ replace_globstar s
      else a # replace_globstar (b # c # s))"
| "replace_globstar s = s"

text \<open>\<^verbatim>\<open>.replace(/\*/g, "[^/]*")\<close>\<close>

definition replace_star :: "string \<Rightarrow> string" where
  "replace_star s = concat (map (\<lambda>c. if c = CHR ''*'' then ''[^/]*'' else [c]) s)"

definition globToRegex_source :: "string \<Rightarrow> string" where
  "globToRegex_source pattern =
     (let escaped =
        replace_star (replace_globstar (replace_question (escape_metacharacters pattern)))
      in ''^'' @ escaped @ ''$'')"

definition globToRegex :: "string \<Rightarrow> regex option" where
  "globToRegex pattern = new_RegExp (globToRegex_source pattern)"


section \<open>Host functions on strings and paths\<close>

text \<open>\<^verbatim>\<open>String.prototype.split\<close> with a separator of one character, and \<^verbatim>\<open>Array.prototype.join\<close>.\<close>

fun split :: "char \<Rightarrow> string \<Rightarrow> string list" where
  "split d [] = [[]]"
| "split d (c # s) =
     (if c = d then [] # split d s
      else (case split d s of [] \<Rightarrow> [[c]] | w # ws \<Rightarrow> (c # w) # ws))"

fun join :: "string \<Rightarrow> string list \<Rightarrow> string" where
  "join d [] = []"
| "join d [w] = w"
| "join d (w # ws) = w @ d @ join d ws"

text \<open>\<^verbatim>\<open>s.replace(/\\/g, '/')\<close>\<close>

definition backslashes_to_slashes :: "string \<Rightarrow> string" where
  "backslashes_to_slashes s = map (\<lambda>c. if c = backslash then CHR ''/'' else c) s"

text \<open>
  \<^verbatim>\<open>String.prototype.trim\<close>: white space and line terminators go from both ends. In the
  8-bit range these are tab, line feed, vertical tab, form feed, carriage return, space and
  the no-break space.
\<close>

definition js_whitespace :: "char \<Rightarrow> bool" where
  "js_whitespace c =
     (c \<in> {CHR 0x09, CHR 0x0A, CHR 0x0B, CHR 0x0C, CHR 0x0D, CHR 0x20, CHR 0xA0})"

definition trim :: "string \<Rightarrow> string" where
  "trim s = rev (dropWhile js_whitespace (rev (dropWhile js_whitespace s)))"

definition startsWith :: "string \<Rightarrow> char \<Rightarrow> bool" where
  "startsWith s c = (case s of [] \<Rightarrow> False | x # _ \<Rightarrow> x = c)"

datatype platform = Posix | Win32

text \<open>\<^verbatim>\<open>path.sep\<close>\<close>

fun sep :: "platform \<Rightarrow> char" where
  "sep Posix = CHR ''/''"
| "sep Win32 = backslash"

text \<open>
  \<^verbatim>\<open>path.relative(baseDir, path.join(dirPath, name))\<close>, where \<^verbatim>\<open>dirPath\<close> is the base
  directory followed by the names of the directories entered so far: the names, the entry's
  own last, joined by the host's separator.
\<close>

definition relative :: "platform \<Rightarrow> string list \<Rightarrow> string" where
  "relative pf names = join [sep pf] names"

text \<open>
  \<^verbatim>\<open>path.resolve(baseDir, relPath)\<close> for a base directory that is already resolved and a
  relative path without \<^verbatim>\<open>..\<close>: the relative path goes after the base, with one separator
  between them.
\<close>

definition resolve :: "platform \<Rightarrow> string \<Rightarrow> string \<Rightarrow> string" where
  "resolve pf baseDir relPath =
     (if relPath = [] then baseDir
      else if baseDir \<noteq> [] \<and> last baseDir = sep pf then baseDir @ relPath
      else baseDir @ [sep pf] @ relPath)"

text \<open>
  \<^verbatim>\<open>path.extname\<close> of a name without separators: the text from the last dot on; empty when
  there is no dot, when the only dot is the first character, and for \<^verbatim>\<open>..\<close>.
\<close>

definition extname :: "string \<Rightarrow> string" where
  "extname name =
     (if CHR ''.'' \<notin> set name then []
      else
        (let ext = CHR ''.'' # rev (takeWhile (\<lambda>c. c \<noteq> CHR ''.'') (rev name))
         in if length ext = length name \<or> name = ''..'' then [] else ext))"

section \<open>The file system\<close>

datatype fs_error = ENOENT | EACCES | ENOTDIR | EISDIR | ENXIO

text \<open>
  What is found at a path. A directory lists its entries by name; \<open>BadDir\<close> is an entry whose
  type is reported as directory and that fails to open (no permission, gone or replaced
  since it was listed). \<open>SearchOnlyDir\<close> is a directory that may be searched and not read:
  it fails to open, and the names below it still resolve. A file carries what reading it
  gives. \<open>Special\<close> is a socket or a device, which cannot be read as a file; \<open>Fifo\<close> is a FIFO
  that nobody writes to: a read of it never settles. A directory that opens lists all its
  entries: an error in the middle of a listing is left out, and so is a directory whose
  opening never settles. The tree is finite: the walker follows no links below its starting
  point.
\<close>

datatype node =
    File "fs_error + string"
  | Dir "(string \<times> node) list"
  | BadDir fs_error
  | Symlink "node option"
  | Special
  | Fifo
  | SearchOnlyDir "(string \<times> node) list"

text \<open>\<^verbatim>\<open>dirent.isDirectory()\<close> and \<^verbatim>\<open>dirent.isFile()\<close>: the type of the entry itself.\<close>

fun isDirectory :: "node \<Rightarrow> bool" where
  "isDirectory (Dir _) = True"
| "isDirectory (BadDir _) = True"
| "isDirectory (SearchOnlyDir _) = True"
| "isDirectory _ = False"

fun isFile :: "node \<Rightarrow> bool" where
  "isFile (File _) = True"
| "isFile _ = False"

text \<open>
  \<^verbatim>\<open>opendir\<close> and \<^verbatim>\<open>readFile\<close> take a path: they follow links, and \<open>None\<close> is a path with
  nothing at it.
\<close>

fun opendir :: "node option \<Rightarrow> fs_error + (string \<times> node) list" where
  "opendir None = Inl ENOENT"
| "opendir (Some (Dir es)) = Inr es"
| "opendir (Some (BadDir e)) = Inl e"
| "opendir (Some (File _)) = Inl ENOTDIR"
| "opendir (Some Special) = Inl ENOTDIR"
| "opendir (Some (Symlink t)) = opendir t"
| "opendir (Some Fifo) = Inl ENOTDIR"
| "opendir (Some (SearchOnlyDir _)) = Inl EACCES"

text \<open>
  The promise of \<^verbatim>\<open>readFile\<close>: \<open>Some\<close> when it settles, rejected (\<open>Inl\<close>) or fulfilled with
  the content (\<open>Inr\<close>); \<open>None\<close> when it never settles.
\<close>

fun readFile :: "node option \<Rightarrow> (fs_error + string) option" where
  "readFile None = Some (Inl ENOENT)"
| "readFile (Some (File r)) = Some r"
| "readFile (Some (Dir _)) = Some (Inl EISDIR)"
| "readFile (Some (BadDir _)) = Some (Inl EISDIR)"
| "readFile (Some Special) = Some (Inl ENXIO)"
| "readFile (Some (Symlink t)) = readFile t"
| "readFile (Some Fifo) = None"
| "readFile (Some (SearchOnlyDir _)) = Some (Inl EISDIR)"

text \<open>The names that resolve below a path, and the node at \<^verbatim>\<open>path.join(dir, name)\<close>.\<close>

fun below :: "node option \<Rightarrow> (string \<times> node) list" where
  "below (Some (Dir es)) = es"
| "below (Some (SearchOnlyDir es)) = es"
| "below (Some (Symlink t)) = below t"
| "below _ = []"

definition child :: "node option \<Rightarrow> string \<Rightarrow> node option" where
  "child dir name = map_of (below dir) name"


section \<open>The finder\<close>

datatype entry_type = files | folders | all

text \<open>
  \<^verbatim>\<open>maxDepth\<close> is a number and \<^verbatim>\<open>Infinity\<close> its default; the current depth is a count
  of directories entered. Fractions and \<^verbatim>\<open>NaN\<close> are left out.
\<close>

datatype max_depth = Finite int | Infinity

fun depth_gt :: "nat \<Rightarrow> max_depth \<Rightarrow> bool" where
  "depth_gt d (Finite m) = (int d > m)"
| "depth_gt d Infinity = False"

fun depth_lt :: "nat \<Rightarrow> max_depth \<Rightarrow> bool" where
  "depth_lt d (Finite m) = (int d < m)"
| "depth_lt d Infinity = True"

text \<open>\<^verbatim>\<open>string | string[]\<close>, and \<^verbatim>\<open>Array.isArray(x) ? x : [x]\<close>.\<close>

datatype one_or_many = One string | Many "string list"

fun as_list :: "one_or_many \<Rightarrow> string list" where
  "as_list (One p) = [p]"
| "as_list (Many ps) = ps"

text \<open>
  \<^verbatim>\<open>GlobOptions\<close> after destructuring, every field present. \<open>cwd\<close> holds
  \<^verbatim>\<open>path.resolve(cwd)\<close>, the base directory.
\<close>

record glob_options =
  cwd :: string
  maxDepth :: max_depth
  ignore :: one_or_many
  matchFilesWithoutExtensions :: bool
  absolute :: bool
  useGitignore :: bool
  type :: entry_type

definition default_options :: "string \<Rightarrow> glob_options" where
  "default_options process_cwd =
     \<lparr>cwd = process_cwd, maxDepth = Infinity, ignore = Many [],
      matchFilesWithoutExtensions = True, absolute = False, useGitignore = False,
      type = files\<rparr>"

text \<open>What the inner functions of \<^verbatim>\<open>find\<close> see of its scope.\<close>

record scope =
  host :: platform
  options :: glob_options
  matchers :: "regex list"
  ignoreMatchers :: "regex list"
  ignoreNegMatchers :: "regex list"

definition isIgnored :: "scope \<Rightarrow> string \<Rightarrow> bool" where
  "isIgnored sc relPathUnix =
     (if list_ex (\<lambda>matcher. test matcher relPathUnix) (ignoreNegMatchers sc) then False
      else if list_ex (\<lambda>matcher. test matcher relPathUnix) (ignoreMatchers sc) then True
      else False)"

text \<open>
  \<^verbatim>\<open>loadGitignore\<close>: the lines of \<^verbatim>\<open>.gitignore\<close> in the base directory, trimmed, without
  the empty ones and the comments; no lines when the read fails. It awaits the read: where
  the read never settles, neither does it (\<open>None\<close>).
\<close>

definition loadGitignore :: "node option \<Rightarrow> string list option" where
  "loadGitignore dir =
     (case readFile (child dir ''.gitignore'') of
        None \<Rightarrow> None
      | Some (Inl err) \<Rightarrow> Some []
      | Some (Inr content) \<Rightarrow>
          Some (filter (\<lambda>line. line \<noteq> [] \<and> \<not> startsWith line CHR ''#'')
                  (map trim (split CHR 0x0A content))))"

text \<open>The two paths of an entry: \<^verbatim>\<open>relPath\<close> and \<^verbatim>\<open>relPathUnix\<close>.\<close>

definition relPath :: "scope \<Rightarrow> string list \<Rightarrow> string" where
  "relPath sc names = relative (host sc) names"

definition relPathUnix :: "scope \<Rightarrow> string list \<Rightarrow> string" where
  "relPathUnix sc names = join ''/'' (split (sep (host sc)) (relPath sc names))"

text \<open>\<^verbatim>\<open>absolute ? path.resolve(baseDir, relPath) : relPath\<close>, the string pushed to the results.\<close>

definition pushed :: "scope \<Rightarrow> string list \<Rightarrow> string" where
  "pushed sc names =
     (if absolute (options sc) then resolve (host sc) (cwd (options sc)) (relPath sc names)
      else relPath sc names)"

definition some_matcher :: "scope \<Rightarrow> string \<Rightarrow> bool" where
  "some_matcher sc p = list_ex (\<lambda>matcher. test matcher p) (matchers sc)"

text \<open>A bound for the recursion of the walk: the entries of a directory weigh less than it.\<close>

fun weight :: "node \<Rightarrow> nat" where
  "weight (Dir es) = Suc (sum_list (map (\<lambda>e. Suc (weight (snd e))) es))"
| "weight (Symlink (Some t)) = Suc (weight t)"
| "weight _ = 0"

fun weight_at :: "node option \<Rightarrow> nat" where
  "weight_at None = 0"
| "weight_at (Some n) = weight n"


lemma opendir_weight:
  "opendir dir = Inr es \<Longrightarrow> sum_list (map (\<lambda>e. Suc (weight (snd e))) es) < weight_at dir"
proof (induction dir rule: opendir.induct)
  case (6 t)
  then show ?case by (cases t) auto
qed auto

text \<open>
  \<^verbatim>\<open>walk(dirPath, currentDepth)\<close>. The directory is given by what lies at \<^verbatim>\<open>dirPath\<close> and
  by the names that lead to it from the base directory. \<open>walk_entries\<close> is the loop over
  the entries; the value is what the call pushes to \<^verbatim>\<open>results\<close>. An error of \<^verbatim>\<open>opendir\<close>
  is caught and the call returns; the source also writes the error to the console, which is
  left out.

  The sub-walks of one directory run concurrently in the source and push in an order the
  scheduler decides; here each entry's sub-walk is written where the entry is met. Only
  statements that do not depend on the order are made about the result.
\<close>

function walk :: "scope \<Rightarrow> node option \<Rightarrow> string list \<Rightarrow> nat \<Rightarrow> string list"
  and walk_entries :: "scope \<Rightarrow> (string \<times> node) list \<Rightarrow> string list \<Rightarrow> nat \<Rightarrow> string list"
where
  "walk sc dir dirNames currentDepth =
     (if depth_gt currentDepth (maxDepth (options sc)) then []
      else
        (case opendir dir of
           Inl err \<Rightarrow> []
         | Inr entries \<Rightarrow> walk_entries sc entries dirNames currentDepth))"
| "walk_entries sc [] dirNames currentDepth = []"
| "walk_entries sc ((name, dirent) # rest) dirNames currentDepth =
     (let names = dirNames @ [name] in
      if isIgnored sc (relPathUnix sc names) then walk_entries sc rest dirNames currentDepth
      else if isDirectory dirent then
        (if (type (options sc) = folders \<or> type (options sc) = all)
            \<and> some_matcher sc (relPathUnix sc names)
         then [pushed sc names] else [])
        @ (if depth_lt currentDepth (maxDepth (options sc))
           then walk sc (Some dirent) names (currentDepth + 1) else [])
        @ walk_entries sc rest dirNames currentDepth
      else if isFile dirent \<and> (type (options sc) = files \<or> type (options sc) = all) then
        (if \<not> matchFilesWithoutExtensions (options sc) \<and> extname name = []
         then walk_entries sc rest dirNames currentDepth
         else
           (if some_matcher sc (relPathUnix sc names) then [pushed sc names] else [])
           @ walk_entries sc rest dirNames currentDepth)
      else walk_entries sc rest dirNames currentDepth)"
  by pat_completeness auto
termination
  by (relation "measure (\<lambda>x. case x of
            Inl (sc, dir, ns, d) \<Rightarrow> 2 * weight_at dir + 1
          | Inr (sc, es, ns, d) \<Rightarrow> 2 * sum_list (map (\<lambda>e. Suc (weight (snd e))) es))")
    (auto dest: opendir_weight)

text \<open>
  The entries the loop of \<open>walk\<close> iterates over, each with the names that lead to it: the
  same recursion, recording every \<^verbatim>\<open>dirent\<close> the loop body is entered with.
\<close>

function visits :: "scope \<Rightarrow> node option \<Rightarrow> string list \<Rightarrow> nat \<Rightarrow> (string list \<times> node) list"
  and visits_entries ::
    "scope \<Rightarrow> (string \<times> node) list \<Rightarrow> string list \<Rightarrow> nat \<Rightarrow> (string list \<times> node) list"
where
  "visits sc dir dirNames currentDepth =
     (if depth_gt currentDepth (maxDepth (options sc)) then []
      else
        (case opendir dir of
           Inl err \<Rightarrow> []
         | Inr entries \<Rightarrow> visits_entries sc entries dirNames currentDepth))"
| "visits_entries sc [] dirNames currentDepth = []"
| "visits_entries sc ((name, dirent) # rest) dirNames currentDepth =
     (let names = dirNames @ [name] in
      (names, dirent) #
      (if \<not> isIgnored sc (relPathUnix sc names) \<and> isDirectory dirent
          \<and> depth_lt currentDepth (maxDepth (options sc))
       then visits sc (Some dirent) names (currentDepth + 1) else [])
      @ visits_entries sc rest dirNames currentDepth)"
  by pat_completeness auto
termination
  by (relation "measure (\<lambda>x. case x of
            Inl (sc, dir, ns, d) \<Rightarrow> 2 * weight_at dir + 1
          | Inr (sc, es, ns, d) \<Rightarrow> 2 * sum_list (map (\<lambda>e. Suc (weight (snd e))) es))")
    (auto dest: opendir_weight)

declare walk.simps [simp del] visits.simps [simp del]

text \<open>
  What a call can be rejected with: the error of \<^verbatim>\<open>new RegExp\<close>, and the system error of
  \<^verbatim>\<open>process.cwd()\<close>.
\<close>

datatype js_error = SyntaxError | SystemError fs_error

text \<open>
  The loop that sorts the ignore patterns into \<^verbatim>\<open>ignoreMatchers\<close> and
  \<^verbatim>\<open>ignoreNegMatchers\<close>; the state is that pair.
\<close>

fun ignore_loop :: "string list \<Rightarrow> regex list \<times> regex list \<Rightarrow> (regex list \<times> regex list) option" where
  "ignore_loop [] st = Some st"
| "ignore_loop (ign # rest) (ims, inms) =
     (let normIgn = backslashes_to_slashes ign in
      if startsWith normIgn CHR ''!'' then
        (case globToRegex (drop 1 normIgn) of
           None \<Rightarrow> None
         | Some r \<Rightarrow> ignore_loop rest (ims, inms @ [r]))
      else
        (case globToRegex normIgn of
           None \<Rightarrow> None
         | Some r \<Rightarrow> ignore_loop rest (ims @ [r], inms)))"

text \<open>
  The part of \<^verbatim>\<open>find\<close> between the base directory and the walk: the patterns are
  normalised and compiled, the ignore list is put together and compiled. \<open>fs\<close> is what lies
  at the base directory. The value is the state of the call there: \<open>None\<close> when it never
  gets that far (it awaits \<^verbatim>\<open>loadGitignore\<close>), \<open>Some (Inl err)\<close> when it has thrown.
\<close>

definition build_scope ::
  "platform \<Rightarrow> node option \<Rightarrow> one_or_many \<Rightarrow> glob_options \<Rightarrow> (js_error + scope) option" where
  "build_scope pf fs patterns opts =
     (let patternList = as_list patterns;
          normalizedPatterns = map backslashes_to_slashes patternList
      in case those (map globToRegex normalizedPatterns) of
           None \<Rightarrow> Some (Inl SyntaxError)
         | Some ms \<Rightarrow>
             (case (if useGitignore opts then loadGitignore fs else Some []) of
                None \<Rightarrow> None
              | Some gitignorePatterns \<Rightarrow>
                  (let ignoreList = as_list (ignore opts) @ gitignorePatterns
                   in case ignore_loop ignoreList ([], []) of
                        None \<Rightarrow> Some (Inl SyntaxError)
                      | Some (ims, inms) \<Rightarrow>
                          Some (Inr \<lparr>host = pf, options = opts, matchers = ms,
                                    ignoreMatchers = ims, ignoreNegMatchers = inms\<rparr>))))"

text \<open>
  \<^verbatim>\<open>find(patterns, options)\<close> from the base directory on, on a host and a file system: the
  promise it returns. \<open>None\<close> is a promise that never settles, \<open>Some (Inl err)\<close> one that is
  rejected, \<open>Some (Inr results)\<close> one that is fulfilled.
\<close>

definition find_glob ::
  "platform \<Rightarrow> node option \<Rightarrow> one_or_many \<Rightarrow> glob_options \<Rightarrow> (js_error + string list) option" where
  "find_glob pf fs patterns opts =
     (case build_scope pf fs patterns opts of
        None \<Rightarrow> None
      | Some (Inl err) \<Rightarrow> Some (Inl err)
      | Some (Inr sc) \<Rightarrow> Some (Inr (walk sc fs [] 0)))"

text \<open>
  The first lines of \<^verbatim>\<open>find\<close>, which stand outside every \<^verbatim>\<open>try\<close>: the base directory is
  \<^verbatim>\<open>path.resolve(cwd)\<close>, and \<^verbatim>\<open>cwd\<close> is \<^verbatim>\<open>process.cwd()\<close> when the caller gives none. Both
  are functions of the host: \<^verbatim>\<open>process.cwd()\<close> throws when the current directory of the
  process is gone, and \<^verbatim>\<open>path.resolve\<close> asks for it when its argument is relative. The
  host also says what lies at a path.
\<close>

record runtime =
  platform_of :: platform
  process_cwd :: "js_error + string"
  path_resolve :: "string \<Rightarrow> js_error + string"
  node_at :: "string \<Rightarrow> node option"

definition baseDir :: "runtime \<Rightarrow> string option \<Rightarrow> js_error + string" where
  "baseDir rt cwd_given =
     (case (case cwd_given of None \<Rightarrow> process_cwd rt | Some c \<Rightarrow> Inr c) of
        Inl err \<Rightarrow> Inl err
      | Inr c \<Rightarrow> path_resolve rt c)"

text \<open>
  \<^verbatim>\<open>find(patterns, options)\<close> as the caller calls it: \<open>cwd_given\<close> is the \<^verbatim>\<open>cwd\<close> of the
  caller's options, \<open>opts\<close> holds the other options.
\<close>

definition find_call ::
  "runtime \<Rightarrow> one_or_many \<Rightarrow> string option \<Rightarrow> glob_options \<Rightarrow> (js_error + string list) option" where
  "find_call rt patterns cwd_given opts =
     (case baseDir rt cwd_given of
        Inl err \<Rightarrow> Some (Inl err)
      | Inr base \<Rightarrow>
          find_glob (platform_of rt) (node_at rt base) patterns (opts\<lparr>cwd := base\<rparr>))"


section \<open>Glob semantics as the specification words it\<close>

text \<open>
  The pattern read from the left: \<^verbatim>\<open>**/\<close> is one token, \<^verbatim>\<open>?\<close> and every other \<^verbatim>\<open>*\<close> are
  tokens, and every other character, the metacharacters of regular expressions among them,
  stands for itself.
\<close>

datatype glob_token = Literal char | AnyOne | Segments | AnyRun

definition char_token :: "char \<Rightarrow> glob_token" where
  "char_token c = (if c = CHR ''?'' then AnyOne else if c = CHR ''*'' then AnyRun else Literal c)"

fun glob_tokens :: "string \<Rightarrow> glob_token list" where
  "glob_tokens (a # b # c # s) =
     (if a = CHR ''*'' \<and> b = CHR ''*'' \<and> c = CHR ''/''
      then Segments # glob_tokens s
      else char_token a # glob_tokens (b # c # s))"
| "glob_tokens (a # s) = char_token a # glob_tokens s"
| "glob_tokens [] = []"

text \<open>
  What a token stands for: a literal for itself, \<^verbatim>\<open>?\<close> for one character that is not a
  separator, \<^verbatim>\<open>*\<close> for any number of characters that are not separators, \<^verbatim>\<open>**/\<close> for
  nothing or for a run of at least one character (separators too) followed by a separator.
  \<open>in_run\<close> says which characters the run may hold.
\<close>

fun token_accepts :: "(char \<Rightarrow> bool) \<Rightarrow> glob_token \<Rightarrow> string \<Rightarrow> bool" where
  "token_accepts in_run (Literal c) u = (u = [c])"
| "token_accepts in_run AnyOne u = (length u = 1 \<and> hd u \<noteq> CHR ''/'')"
| "token_accepts in_run AnyRun u = (CHR ''/'' \<notin> set u)"
| "token_accepts in_run Segments u =
     (u = [] \<or> (2 \<le> length u \<and> last u = CHR ''/'' \<and> list_all in_run (butlast u)))"

text \<open>The whole path is cut into one piece for each token, in order.\<close>

fun glob_accepts :: "(char \<Rightarrow> bool) \<Rightarrow> glob_token list \<Rightarrow> string \<Rightarrow> bool" where
  "glob_accepts in_run [] p = (p = [])"
| "glob_accepts in_run (t # ts) p =
     list_ex (\<lambda>n. token_accepts in_run t (take n p) \<and> glob_accepts in_run ts (drop n p))
       [0..<Suc (length p)]"

text \<open>The run of \<^verbatim>\<open>**/\<close> may hold any character: the semantics as stated.\<close>

definition glob_semantics :: "string \<Rightarrow> string \<Rightarrow> bool" where
  "glob_semantics pattern p = glob_accepts (\<lambda>c. True) (glob_tokens pattern) p"

text \<open>The run of \<^verbatim>\<open>**/\<close> holds no line terminator.\<close>

definition glob_semantics_no_newline :: "string \<Rightarrow> string \<Rightarrow> bool" where
  "glob_semantics_no_newline pattern p =
     glob_accepts (\<lambda>c. \<not> line_terminator c) (glob_tokens pattern) p"


text \<open>\<open>compile(P)\<close> accepts \<open>p\<close>: the pattern compiles and the matcher's \<^verbatim>\<open>test\<close> is true.\<close>

definition accepts :: "string \<Rightarrow> string \<Rightarrow> bool" where
  "accepts pattern p = (case globToRegex pattern of None \<Rightarrow> False | Some r \<Rightarrow> test r p)"

section \<open>The compiler's output, token by token\<close>

text \<open>
  What one character of the pattern has become after the first two replacements, what one
  token has become after the third and after the fourth, and the expression it is read as.
\<close>

definition char_source :: "char \<Rightarrow> string" where
  "char_source c = (if escaped_character c then [backslash, c] else if c = CHR ''?'' then ''[^/]'' else [c])"

fun token_source3 :: "glob_token \<Rightarrow> string" where
  "token_source3 (Literal c) = (if escaped_character c then [backslash, c] else [c])"
| "token_source3 AnyOne = ''[^/]''"
| "token_source3 Segments = ''(?:.+/)?''"
| "token_source3 AnyRun = ''*''"

fun token_source :: "glob_token \<Rightarrow> string" where
  "token_source (Literal c) = (if escaped_character c then [backslash, c] else [c])"
| "token_source AnyOne = ''[^/]''"
| "token_source Segments = ''(?:.+/)?''"
| "token_source AnyRun = ''[^/]*''"

fun token_regex :: "glob_token \<Rightarrow> regex" where
  "token_regex (Literal c) = Chr c"
| "token_regex AnyOne = NotChr CHR ''/''"
| "token_regex Segments = Opt (Seq (Plus Dot) (Chr CHR ''/''))"
| "token_regex AnyRun = Star (NotChr CHR ''/'')"

definition plain_literal :: "glob_token \<Rightarrow> bool" where
  "plain_literal t = (case t of Literal c \<Rightarrow> c \<noteq> CHR ''*'' \<and> c \<noteq> CHR ''?'' | _ \<Rightarrow> True)"

text \<open>The expression \<^verbatim>\<open>globToRegex\<close> returns for a pattern (see \<open>globToRegex_tokens\<close>).\<close>

definition compiled :: "string \<Rightarrow> regex" where
  "compiled pattern = foldr Seq (map token_regex (glob_tokens pattern)) Eps"

section \<open>Words of the claims about the walk\<close>

text \<open>
  The ignore list of a call: the explicit patterns, then the lines of \<^verbatim>\<open>.gitignore\<close> when
  it is respected. Of these, the override patterns are the ones that begin with \<^verbatim>\<open>!\<close>,
  without it; the deny patterns are the others. Each is taken after its backslashes have
  become slashes.
\<close>

definition ignore_list :: "node option \<Rightarrow> glob_options \<Rightarrow> string list" where
  "ignore_list fs opts =
     as_list (ignore opts)
     @ (if useGitignore opts then (case loadGitignore fs of None \<Rightarrow> [] | Some ls \<Rightarrow> ls) else [])"

text \<open>The read of \<^verbatim>\<open>.gitignore\<close> settles, where the call reads it at all.\<close>

definition gitignore_settles :: "node option \<Rightarrow> glob_options \<Rightarrow> bool" where
  "gitignore_settles fs opts =
     (\<not> useGitignore opts \<or> readFile (child fs ''.gitignore'') \<noteq> None)"

definition override_patterns :: "string list \<Rightarrow> string list" where
  "override_patterns igns =
     map (drop 1) (filter (\<lambda>n. startsWith n CHR ''!'') (map backslashes_to_slashes igns))"

definition deny_patterns :: "string list \<Rightarrow> string list" where
  "deny_patterns igns =
     filter (\<lambda>n. \<not> startsWith n CHR ''!'') (map backslashes_to_slashes igns)"

text \<open>
  An entry is eligible under the entry kind: directories for \<open>folders\<close> and \<open>all\<close>, files
  for \<open>files\<close> and \<open>all\<close>. A file passes the filter on names without extension when the
  option allows such names or its name has an extension.
\<close>

definition eligible :: "entry_type \<Rightarrow> node \<Rightarrow> bool" where
  "eligible t n =
     ((isDirectory n \<and> (t = folders \<or> t = all)) \<or> (isFile n \<and> (t = files \<or> t = all)))"

definition passes_extensionless_filter :: "glob_options \<Rightarrow> string \<Rightarrow> bool" where
  "passes_extensionless_filter opts name =
     (matchFilesWithoutExtensions opts \<or> extname name \<noteq> [])"

text \<open>
  A visited entry is a candidate when it is not ignored, is eligible and, if it is a file,
  passes the filter on names without extension.
\<close>

definition candidate :: "scope \<Rightarrow> string list \<times> node \<Rightarrow> bool" where
  "candidate sc e =
     (\<not> isIgnored sc (relPathUnix sc (fst e))
      \<and> eligible (type (options sc)) (snd e)
      \<and> (\<not> isFile (snd e) \<or> passes_extensionless_filter (options sc) (last (fst e))))"

text \<open>
  Every entry of the base directory has a name that is not empty, as the entries of a real
  directory have.
\<close>

definition entry_names_nonempty :: "node option \<Rightarrow> bool" where
  "entry_names_nonempty fs =
     (case opendir fs of Inl err \<Rightarrow> True | Inr es \<Rightarrow> list_all (\<lambda>e. fst e \<noteq> []) es)"

text \<open>The decision the loop body takes on an entry: whether it pushes the entry's path.\<close>

definition collects :: "scope \<Rightarrow> string list \<times> node \<Rightarrow> bool" where
  "collects sc e =
     (\<not> isIgnored sc (relPathUnix sc (fst e))
      \<and> ((isDirectory (snd e) \<and> (type (options sc) = folders \<or> type (options sc) = all))
         \<or> (isFile (snd e) \<and> (type (options sc) = files \<or> type (options sc) = all)
            \<and> (matchFilesWithoutExtensions (options sc) \<or> extname (last (fst e)) \<noteq> [])))
      \<and> some_matcher sc (relPathUnix sc (fst e)))"

text \<open>Two scopes that agree on everything the walk reads.\<close>

definition same_view :: "scope \<Rightarrow> scope \<Rightarrow> bool" where
  "same_view sc sc' \<longleftrightarrow>
     host sc = host sc' \<and> matchers sc = matchers sc' \<and> ignoreMatchers sc = ignoreMatchers sc'
     \<and> ignoreNegMatchers sc = ignoreNegMatchers sc'
     \<and> cwd (options sc) = cwd (options sc') \<and> maxDepth (options sc) = maxDepth (options sc')
     \<and> matchFilesWithoutExtensions (options sc) = matchFilesWithoutExtensions (options sc')
     \<and> absolute (options sc) = absolute (options sc') \<and> type (options sc) = type (options sc')"

section \<open>The regular expression of a pattern\<close>

lemma replace_question_append: "replace_question (u @ v) = replace_question u @ replace_question v"
  by (simp add: replace_question_def)

lemma step12: "replace_question (escape_metacharacters s) = concat (map char_source s)"
  by (induction s) (auto simp: replace_question_def escape_metacharacters_def char_source_def escaped_character_def)

lemma rg_cons: "a \<noteq> CHR ''*'' \<Longrightarrow> replace_globstar (a # s) = a # replace_globstar s"
  by (cases s rule: replace_globstar.cases) auto

lemma rg_star:
  "\<not> (\<exists>t. s = CHR ''*'' # CHR ''/'' # t) \<Longrightarrow> replace_globstar (CHR ''*'' # s) = CHR ''*'' # replace_globstar s"
  by (cases s rule: replace_globstar.cases) auto

lemma char_source_token: "token_source3 (char_token a) = char_source a"
  by (auto simp: char_source_def char_token_def escaped_character_def)

lemma rg_char_source: "a \<noteq> CHR ''*'' \<Longrightarrow> replace_globstar (char_source a @ s) = char_source a @ replace_globstar s"
  by (auto simp: char_source_def rg_cons escaped_character_def)

lemma char_source_hd: "char_source a @ s = x # t \<Longrightarrow> x = a \<or> x = backslash \<or> x = CHR ''[''"
  by (auto simp: char_source_def split: if_splits)

lemma char_source_star: "char_source CHR ''*'' = ''*''"
  by (simp add: char_source_def escaped_character_def)

lemma step3_one:
  "replace_globstar (concat (map char_source [a])) = concat (map token_source3 (glob_tokens [a]))"
proof -
  have "replace_globstar (char_source a) = char_source a"
    by (cases "a = CHR ''*''") (use rg_char_source [of a "[]"] in \<open>auto simp: char_source_star\<close>)
  then show ?thesis by (simp add: char_source_token)
qed

lemma step3_two:
  "replace_globstar (concat (map char_source [a, b])) = concat (map token_source3 (glob_tokens [a, b]))"
proof (cases "a = CHR ''*''")
  case True
  have "\<not> (\<exists>t. concat (map char_source [b]) = CHR ''*'' # CHR ''/'' # t)"
    by (auto simp: char_source_def split: if_splits)
  then show ?thesis using step3_one [of b] True
    by (simp add: char_source_star rg_star char_source_token)
next
  case False
  have "replace_globstar (char_source a @ concat (map char_source [b]))
        = char_source a @ replace_globstar (concat (map char_source [b]))"
    using False by (rule rg_char_source)
  then show ?thesis using step3_one [of b] False by (simp add: char_source_token)
qed

lemma step3:
  "replace_globstar (concat (map char_source s)) = concat (map token_source3 (glob_tokens s))"
proof (induction s rule: glob_tokens.induct)
  case (1 a b c s)
  show ?case
  proof (cases "a = CHR ''*'' \<and> b = CHR ''*'' \<and> c = CHR ''/''")
    case True
    then show ?thesis using 1 by (simp add: char_source_def escaped_character_def)
  next
    case False
    show ?thesis
    proof (cases "a = CHR ''*''")
      case True
      have "\<not> (\<exists>t. concat (map char_source (b # c # s)) = CHR ''*'' # CHR ''/'' # t)"
      proof
        assume "\<exists>t. concat (map char_source (b # c # s)) = CHR ''*'' # CHR ''/'' # t"
        then obtain t
          where t: "char_source b @ char_source c @ concat (map char_source s)
                    = CHR ''*'' # CHR ''/'' # t"
          by auto
        from char_source_hd [OF t] have b: "b = CHR ''*''" by auto
        with t have "char_source c @ concat (map char_source s) = CHR ''/'' # t"
          by (simp add: char_source_star)
        from char_source_hd [OF this] have "c = CHR ''/''" by auto
        with b True False show False by simp
      qed
      then show ?thesis using 1 True False
        by (simp add: char_source_star rg_star char_source_token)
    next
      case F2: False
      have "replace_globstar (char_source a @ concat (map char_source (b # c # s)))
            = char_source a @ replace_globstar (concat (map char_source (b # c # s)))"
        using F2 by (rule rg_char_source)
      then show ?thesis using 1 False F2 by (simp add: char_source_token)
    qed
  qed
qed (rule step3_one, rule step3_two, simp)

lemma char_token_plain: "plain_literal (char_token a)"
  by (simp add: plain_literal_def char_token_def)

lemma glob_tokens_plain: "list_all plain_literal (glob_tokens s)"
  by (induction s rule: glob_tokens.induct) (simp_all add: char_token_plain, simp add: plain_literal_def)

lemma replace_star_append: "replace_star (u @ v) = replace_star u @ replace_star v"
  by (simp add: replace_star_def)

lemma replace_star_token: "plain_literal t \<Longrightarrow> replace_star (token_source3 t) = token_source t"
  by (cases t) (auto simp: replace_star_def plain_literal_def)

lemma step4:
  "list_all plain_literal ts \<Longrightarrow>
     replace_star (concat (map token_source3 ts)) = concat (map token_source ts)"
  by (induction ts) (simp_all add: replace_star_append replace_star_token, simp add: replace_star_def)

lemma sources_hd:
  "list_all plain_literal ts \<Longrightarrow> concat (map token_source ts) = x # rest \<Longrightarrow>
     x \<noteq> CHR ''*'' \<and> x \<noteq> CHR ''?''"
proof (induction ts)
  case Nil
  then show ?case by simp
next
  case (Cons t ts)
  then show ?case
    by (cases t) (auto simp: plain_literal_def escaped_character_def split: if_splits)
qed

lemma parse_sources:
  "list_all plain_literal ts \<Longrightarrow>
     parse_atoms (concat (map token_source ts)) = Some (map token_regex ts)"
proof (induction ts)
  case Nil
  then show ?case by simp
next
  case (Cons t ts)
  let ?rest = "concat (map token_source ts)"
  from Cons have ih: "parse_atoms ?rest = Some (map token_regex ts)" by simp
  have nostar: "\<not> (\<exists>r. ?rest = CHR ''*'' # r)"
    using sources_hd [of ts] Cons.prems by auto
  show ?case
  proof (cases t)
    case (Literal c)
    then show ?thesis using ih Cons.prems
      by (auto simp: plain_literal_def escaped_character_def syntax_character_def cons_atom_def)
  next
    case AnyOne
    then show ?thesis using ih nostar
      by (cases ?rest) (auto simp: cons_atom_def)
  next
    case Segments
    then show ?thesis using ih by (simp add: cons_atom_def)
  next
    case AnyRun
    then show ?thesis using ih by (simp add: cons_atom_def)
  qed
qed

lemma new_RegExp_anchored:
  "new_RegExp (CHR ''^'' # body @ ''$'') = map_option (\<lambda>atoms. foldr Seq atoms Eps) (parse_atoms body)"
  by (simp add: new_RegExp_def)

lemma globToRegex_tokens:
  "globToRegex pattern = Some (foldr Seq (map token_regex (glob_tokens pattern)) Eps)"
  by (simp add: globToRegex_def globToRegex_source_def Let_def new_RegExp_anchored
      step12 step3 step4 glob_tokens_plain parse_sources)

lemma conc_nil_iff: "[] \<in> conc A B \<longleftrightarrow> [] \<in> A \<and> [] \<in> B"
  by (auto simp: conc_def)

lemma nullable_lang: "nullable r \<longleftrightarrow> [] \<in> lang r"
  by (induction r) (auto simp: conc_nil_iff intro: star.star_nil)

lemma conc_cons_iff:
  "a # s \<in> conc A B \<longleftrightarrow>
     ([] \<in> A \<and> a # s \<in> B) \<or> (\<exists>u v. s = u @ v \<and> a # u \<in> A \<and> v \<in> B)"
  by (auto simp: conc_def Cons_eq_append_conv)

lemma star_cons_iff:
  "a # s \<in> star A \<longleftrightarrow> (\<exists>u v. s = u @ v \<and> a # u \<in> A \<and> v \<in> star A)"
proof
  assume "a # s \<in> star A"
  then show "\<exists>u v. s = u @ v \<and> a # u \<in> A \<and> v \<in> star A"
  proof (induction "a # s" arbitrary: rule: star.induct)
    case (star_app u v)
    then show ?case by (cases u) auto
  qed
next
  assume "\<exists>u v. s = u @ v \<and> a # u \<in> A \<and> v \<in> star A"
  then obtain u v where "s = u @ v" "a # u \<in> A" "v \<in> star A" by blast
  then show "a # s \<in> star A"
    using star.star_app [of "a # u" A v] by simp
qed

lemma lang_deriv: "s \<in> lang (deriv a r) \<longleftrightarrow> a # s \<in> lang r"
proof (induction r arbitrary: s)
  case (Seq r1 r2)
  then show ?case
    by (auto simp: conc_cons_iff nullable_lang) (auto simp: conc_def)
next
  case (Star r)
  then show ?case by (auto simp: star_cons_iff) (auto simp: conc_def)
next
  case (Plus r)
  then show ?case
    by (auto simp: conc_cons_iff star_cons_iff) (auto simp: conc_def)
qed auto

lemma test_lang: "test r s \<longleftrightarrow> s \<in> lang r"
  by (induction s arbitrary: r) (simp_all add: nullable_lang lang_deriv)

lemma conc_split: "p \<in> conc A B \<longleftrightarrow> (\<exists>n\<le>length p. take n p \<in> A \<and> drop n p \<in> B)"
proof
  assume "p \<in> conc A B"
  then obtain u v where "p = u @ v" "u \<in> A" "v \<in> B" by (auto simp: conc_def)
  then have "length u \<le> length p \<and> take (length u) p \<in> A \<and> drop (length u) p \<in> B" by simp
  then show "\<exists>n\<le>length p. take n p \<in> A \<and> drop n p \<in> B" by blast
next
  assume "\<exists>n\<le>length p. take n p \<in> A \<and> drop n p \<in> B"
  then obtain n where "take n p \<in> A" "drop n p \<in> B" by blast
  then have "take n p @ drop n p \<in> conc A B" unfolding conc_def by blast
  then show "p \<in> conc A B" by simp
qed

lemma star_singletons: "u \<in> star {[d] | d. P d} \<longleftrightarrow> (\<forall>c\<in>set u. P c)"
proof
  assume "u \<in> star {[d] | d. P d}"
  then show "\<forall>c\<in>set u. P c" by (induction rule: star.induct) auto
next
  assume "\<forall>c\<in>set u. P c"
  then show "u \<in> star {[d] | d. P d}"
  proof (induction u)
    case Nil
    show ?case by (rule star.star_nil)
  next
    case (Cons a u)
    then have "[a] \<in> {[d] | d. P d}" "u \<in> star {[d] | d. P d}" by auto
    then have "[a] @ u \<in> star {[d] | d. P d}" by (rule star.star_app)
    then show ?case by simp
  qed
qed

lemma plus_singletons:
  "u \<in> conc {[d] | d. P d} (star {[d] | d. P d}) \<longleftrightarrow> u \<noteq> [] \<and> (\<forall>c\<in>set u. P c)"
  by (cases u) (auto simp: conc_cons_iff conc_nil_iff star_singletons)

lemma conc_last: "u \<in> conc A {[c]} \<longleftrightarrow> u \<noteq> [] \<and> last u = c \<and> butlast u \<in> A"
proof
  assume "u \<in> conc A {[c]}"
  then obtain v where "u = v @ [c]" "v \<in> A" by (auto simp: conc_def)
  then show "u \<noteq> [] \<and> last u = c \<and> butlast u \<in> A" by simp
next
  assume a: "u \<noteq> [] \<and> last u = c \<and> butlast u \<in> A"
  then have "butlast u @ [c] \<in> conc A {[c]}" unfolding conc_def by blast
  moreover have "butlast u @ [c] = u" using a by (metis append_butlast_last_id)
  ultimately show "u \<in> conc A {[c]}" by simp
qed

lemma token_lang:
  "u \<in> lang (token_regex t) \<longleftrightarrow> token_accepts (\<lambda>c. \<not> line_terminator c) t u"
proof (cases t)
  case (Literal c)
  then show ?thesis by simp
next
  case AnyOne
  then show ?thesis by (cases u) auto
next
  case Segments
  have "2 \<le> length u \<longleftrightarrow> u \<noteq> [] \<and> butlast u \<noteq> []"
    by (cases u rule: rev_cases) (auto simp: Suc_le_eq)
  then show ?thesis using Segments
    by (auto simp: conc_last plus_singletons list_all_iff)
next
  case AnyRun
  then show ?thesis by (auto simp: star_singletons)
qed

lemma list_ex_upto: "list_ex P [0..<Suc n] \<longleftrightarrow> (\<exists>k\<le>n. P k)"
  unfolding list_ex_iff set_upt by (auto simp: less_Suc_eq_le)

lemma tokens_lang:
  "p \<in> lang (foldr Seq (map token_regex ts) Eps) \<longleftrightarrow>
     glob_accepts (\<lambda>c. \<not> line_terminator c) ts p"
proof (induction ts arbitrary: p)
  case Nil
  then show ?case by simp
next
  case (Cons t ts)
  show ?case
    by (simp add: conc_split list_ex_upto token_lang Cons.IH del: upt_Suc token_accepts.simps)
qed


lemma globToRegex_total: "\<exists>r. globToRegex pattern = Some r"
  by (simp add: globToRegex_tokens)

lemma accepts_lang:
  "accepts pattern p \<longleftrightarrow> glob_accepts (\<lambda>c. \<not> line_terminator c) (glob_tokens pattern) p"
  by (simp add: accepts_def globToRegex_tokens test_lang tokens_lang)

lemma glob_accepts_no_terminator:
  "\<forall>c\<in>set p. \<not> line_terminator c \<Longrightarrow>
     glob_accepts (\<lambda>c. \<not> line_terminator c) ts p = glob_accepts (\<lambda>c. True) ts p"
proof (induction ts arbitrary: p)
  case Nil
  then show ?case by simp
next
  case (Cons t ts)
  have tok: "token_accepts (\<lambda>c. \<not> line_terminator c) t (take n p)
      = token_accepts (\<lambda>c. True) t (take n p)" for n
  proof (cases t)
    case Segments
    have "set (butlast (take n p)) \<subseteq> set p"
      by (meson in_set_butlastD in_set_takeD subsetI)
    then have "list_all (\<lambda>c. \<not> line_terminator c) (butlast (take n p))"
      using Cons.prems by (auto simp: list_all_iff)
    then show ?thesis using Segments by (simp add: list_all_iff)
  qed simp_all
  have rest: "glob_accepts (\<lambda>c. \<not> line_terminator c) ts (drop n p)
      = glob_accepts (\<lambda>c. True) ts (drop n p)" for n
    using Cons.prems by (intro Cons.IH) (auto dest: in_set_dropD)
  show ?case by (simp only: glob_accepts.simps tok rest)
qed

section \<open>The walk and the entries it visits\<close>

lemma not_file_and_directory: "isDirectory n \<Longrightarrow> \<not> isFile n"
  by (cases n) auto

lemma collects_pair:
  "collects sc (names, dirent) =
     (\<not> isIgnored sc (relPathUnix sc names)
      \<and> ((isDirectory dirent \<and> (type (options sc) = folders \<or> type (options sc) = all))
         \<or> (isFile dirent \<and> (type (options sc) = files \<or> type (options sc) = all)
            \<and> (matchFilesWithoutExtensions (options sc) \<or> extname (last names) \<noteq> [])))
      \<and> some_matcher sc (relPathUnix sc names))"
  by (simp add: collects_def)

lemma walk_visits:
  "walk sc dir ns d = map (\<lambda>e. pushed sc (fst e)) (filter (collects sc) (visits sc dir ns d))"
  "walk_entries sc es ns d =
     map (\<lambda>e. pushed sc (fst e)) (filter (collects sc) (visits_entries sc es ns d))"
proof (induction sc dir ns d and sc es ns d rule: walk_walk_entries.induct)
  case (1 sc dir dirNames currentDepth)
  then show ?case by (simp add: walk.simps visits.simps split: sum.splits)
next
  case (2 sc dirNames currentDepth)
  then show ?case by simp
next
  case (3 sc name dirent rest dirNames currentDepth)
  then show ?case
    by (auto simp: collects_pair Let_def not_file_and_directory)
qed

lemma globToRegex_compiled: "globToRegex pattern = Some (compiled pattern)"
  by (simp add: globToRegex_tokens compiled_def)

lemma test_compiled: "test (compiled pattern) p \<longleftrightarrow> accepts pattern p"
  by (simp add: accepts_def globToRegex_compiled)

lemma those_compiled: "those (map globToRegex ps) = Some (map compiled ps)"
  by (induction ps) (simp_all add: globToRegex_compiled)

lemma ignore_loop_compiled:
  "ignore_loop igns (ims, inms) =
     Some (ims @ map compiled (deny_patterns igns), inms @ map compiled (override_patterns igns))"
  by (induction igns arbitrary: ims inms)
    (simp_all add: deny_patterns_def override_patterns_def globToRegex_compiled Let_def)

lemma loadGitignore_None:
  "loadGitignore fs = None \<longleftrightarrow> readFile (child fs ''.gitignore'') = None"
  by (simp add: loadGitignore_def split: option.splits sum.splits)

lemma build_scope_eq:
  "gitignore_settles fs opts \<Longrightarrow>
     build_scope pf fs patterns opts =
       Some (Inr \<lparr>host = pf, options = opts,
            matchers = map compiled (map backslashes_to_slashes (as_list patterns)),
            ignoreMatchers = map compiled (deny_patterns (ignore_list fs opts)),
            ignoreNegMatchers = map compiled (override_patterns (ignore_list fs opts))\<rparr>)"
  by (cases "loadGitignore fs")
    (auto simp: build_scope_def those_compiled ignore_loop_compiled ignore_list_def Let_def
      gitignore_settles_def loadGitignore_None)

lemma build_scope_hangs:
  assumes "\<not> gitignore_settles fs opts"
  shows "build_scope pf fs patterns opts = None"
proof -
  from assms have "useGitignore opts" and "loadGitignore fs = None"
    by (simp_all add: gitignore_settles_def loadGitignore_None)
  then show ?thesis by (simp add: build_scope_def those_compiled Let_def)
qed

lemma build_scope_fields:
  assumes "build_scope pf fs patterns opts = Some (Inr sc)"
  shows "sc = \<lparr>host = pf, options = opts,
            matchers = map compiled (map backslashes_to_slashes (as_list patterns)),
            ignoreMatchers = map compiled (deny_patterns (ignore_list fs opts)),
            ignoreNegMatchers = map compiled (override_patterns (ignore_list fs opts))\<rparr>"
proof (cases "gitignore_settles fs opts")
  case True
  from build_scope_eq [OF True, of pf patterns] assms show ?thesis by simp
next
  case False
  from build_scope_hangs [OF False, of pf patterns] assms show ?thesis by simp
qed

lemma list_ex_compiled:
  "list_ex (\<lambda>m. test m p) (map compiled ps) \<longleftrightarrow> (\<exists>P\<in>set ps. accepts P p)"
  by (simp add: list_ex_iff test_compiled)

lemma find_glob_eq:
  "build_scope pf fs patterns opts = Some (Inr sc) \<Longrightarrow> find_glob pf fs patterns opts = Some (Inr (walk sc fs [] 0))"
  by (simp add: find_glob_def)

lemma collects_candidate:
  "collects sc e \<longleftrightarrow> candidate sc e \<and> list_ex (\<lambda>m. test m (relPathUnix sc (fst e))) (matchers sc)"
  by (auto simp: collects_def candidate_def eligible_def passes_extensionless_filter_def
      some_matcher_def not_file_and_directory)

lemma isIgnored_iff:
  "isIgnored sc p \<longleftrightarrow>
     \<not> list_ex (\<lambda>m. test m p) (ignoreNegMatchers sc) \<and> list_ex (\<lambda>m. test m p) (ignoreMatchers sc)"
  by (simp add: isIgnored_def)

lemma override_patterns_set: "set igns' = set igns \<Longrightarrow> set (override_patterns igns') = set (override_patterns igns)"
  by (simp add: override_patterns_def)

lemma deny_patterns_set: "set igns' = set igns \<Longrightarrow> set (deny_patterns igns') = set (deny_patterns igns)"
  by (simp add: deny_patterns_def)

lemma visits_depth:
  "maxDepth (options sc) = Finite m \<Longrightarrow> e \<in> set (visits sc dir ns d) \<Longrightarrow>
     int (length (fst e)) + int d \<le> int (length ns) + m + 1"
  "maxDepth (options sc) = Finite m \<Longrightarrow> int d \<le> m \<Longrightarrow> e \<in> set (visits_entries sc es ns d) \<Longrightarrow>
     int (length (fst e)) + int d \<le> int (length ns) + m + 1"
proof (induction sc dir ns d and sc es ns d rule: visits_visits_entries.induct)
  case (1 sc dir dirNames currentDepth)
  show ?case
  proof (cases "opendir dir")
    case (Inl err)
    then show ?thesis using "1.prems" by (simp add: visits.simps split: if_splits)
  next
    case (Inr entries)
    then show ?thesis using "1.prems" "1.IH" [of entries]
      by (simp add: visits.simps split: if_splits)
  qed
next
  case (2 sc dirNames currentDepth)
  then show ?case by simp
next
  case (3 sc name dirent rest dirNames currentDepth)
  from "3.prems" have "e = (dirNames @ [name], dirent)
      \<or> (\<not> isIgnored sc (relPathUnix sc (dirNames @ [name])) \<and> isDirectory dirent
          \<and> depth_lt currentDepth (maxDepth (options sc))
          \<and> e \<in> set (visits sc (Some dirent) (dirNames @ [name]) (currentDepth + 1)))
      \<or> e \<in> set (visits_entries sc rest dirNames currentDepth)"
    by (auto simp: Let_def split: if_splits)
  then show ?case
  proof (elim disjE conjE)
    assume "e = (dirNames @ [name], dirent)"
    then show ?thesis using "3.prems" by simp
  next
    assume h: "\<not> isIgnored sc (relPathUnix sc (dirNames @ [name]))" "isDirectory dirent"
      "depth_lt currentDepth (maxDepth (options sc))"
      "e \<in> set (visits sc (Some dirent) (dirNames @ [name]) (currentDepth + 1))"
    have "\<not> isIgnored sc (relPathUnix sc (dirNames @ [name])) \<and> isDirectory dirent
          \<and> depth_lt currentDepth (maxDepth (options sc))"
      using h by simp
    from "3.IH"(1) [OF refl this "3.prems"(1) h(4)] show ?thesis by simp
  next
    assume "e \<in> set (visits_entries sc rest dirNames currentDepth)"
    from "3.IH"(2) [OF refl "3.prems"(1,2) this] show ?thesis .
  qed
qed

lemma visits_entries_no_descent:
  "\<not> depth_lt d (maxDepth (options sc)) \<Longrightarrow>
     visits_entries sc es ns d = map (\<lambda>(name, dirent). (ns @ [name], dirent)) es"
  by (induction es) (auto simp: Let_def)

lemma walk_beyond: "depth_gt d (maxDepth (options sc)) \<Longrightarrow> walk sc dir ns d = []"
  by (simp add: walk.simps)

lemma visits_beyond: "depth_gt d (maxDepth (options sc)) \<Longrightarrow> visits sc dir ns d = []"
  by (simp add: visits.simps)

lemma walk_entries_append:
  "walk_entries sc (es1 @ es2) ns d = walk_entries sc es1 ns d @ walk_entries sc es2 ns d"
  by (induction es1) (auto simp: Let_def)

lemma walk_opendir_error: "opendir dir = Inl err \<Longrightarrow> walk sc dir ns d = []"
  by (simp add: walk.simps)

lemma walk_empty_dir: "walk sc (Some (Dir [])) ns d = []"
  by (simp add: walk.simps)

lemma walk_entries_unopenable:
  assumes "isDirectory dirent" and "opendir (Some dirent) = Inl err"
  shows "walk_entries sc ((name, dirent) # rest) ns d
    = walk_entries sc ((name, Dir []) # rest) ns d"
  using assms by (simp add: Let_def walk_opendir_error walk_empty_dir)

lemma find_glob_total:
  "gitignore_settles fs opts \<Longrightarrow> \<exists>rs. find_glob pf fs patterns opts = Some (Inr rs)"
  by (simp add: find_glob_def build_scope_eq)


lemma loadGitignore_error:
  "readFile (child fs ''.gitignore'') = Some (Inl err) \<Longrightarrow> loadGitignore fs = Some []"
  by (simp add: loadGitignore_def)

lemma same_view_parts:
  assumes "same_view sc sc'"
  shows "isIgnored sc = isIgnored sc'" "relPathUnix sc = relPathUnix sc'"
    "pushed sc = pushed sc'" "some_matcher sc = some_matcher sc'"
  using assms
  by (auto simp: same_view_def isIgnored_def relPathUnix_def relPath_def pushed_def
      some_matcher_def fun_eq_iff)

lemma walk_same_view:
  "same_view sc sc' \<Longrightarrow> walk sc dir ns d = walk sc' dir ns d"
  "same_view sc sc' \<Longrightarrow> walk_entries sc es ns d = walk_entries sc' es ns d"
proof (induction sc dir ns d and sc es ns d rule: walk_walk_entries.induct)
  case (1 sc dir dirNames currentDepth)
  then have "maxDepth (options sc) = maxDepth (options sc')" by (simp add: same_view_def)
  then show ?case using 1 by (simp add: walk.simps split: sum.splits)
next
  case (2 sc dirNames currentDepth)
  then show ?case by simp
next
  case (3 sc name dirent rest dirNames currentDepth)
  from "3.prems" have o: "maxDepth (options sc) = maxDepth (options sc')"
    "matchFilesWithoutExtensions (options sc) = matchFilesWithoutExtensions (options sc')"
    "type (options sc) = type (options sc')"
    by (simp_all add: same_view_def)
  note p = same_view_parts [OF "3.prems", symmetric]
  show ?case
    using "3.IH" "3.prems" unfolding walk_entries.simps Let_def p o
    by (auto simp: p o)
qed


lemma find_glob_walk:
  "gitignore_settles fs opts \<Longrightarrow>
     find_glob pf fs patterns opts =
       Some (Inr (walk \<lparr>host = pf, options = opts,
            matchers = map compiled (map backslashes_to_slashes (as_list patterns)),
            ignoreMatchers = map compiled (deny_patterns (ignore_list fs opts)),
            ignoreNegMatchers = map compiled (override_patterns (ignore_list fs opts))\<rparr>
          fs [] 0))"
  by (simp add: find_glob_def build_scope_eq)

lemma find_glob_no_gitignore:
  assumes "readFile (child fs ''.gitignore'') = Some (Inl err)"
  shows "find_glob pf fs patterns opts = find_glob pf fs patterns (opts\<lparr>useGitignore := False\<rparr>)"
proof -
  have i: "ignore_list fs opts = ignore_list fs (opts\<lparr>useGitignore := False\<rparr>)"
    using assms by (simp add: ignore_list_def loadGitignore_error)
  have a: "gitignore_settles fs opts" using assms by (simp add: gitignore_settles_def)
  have b: "gitignore_settles fs (opts\<lparr>useGitignore := False\<rparr>)"
    by (simp add: gitignore_settles_def)
  show ?thesis
    unfolding find_glob_walk [OF a] find_glob_walk [OF b] i
    by (simp add: walk_same_view(1) same_view_def)
qed

lemma gitignore_settles_cwd [simp]:
  "gitignore_settles fs (opts\<lparr>cwd := base\<rparr>) = gitignore_settles fs opts"
  by (simp add: gitignore_settles_def)

lemma find_call_resolved:
  "baseDir rt cwd_given = Inr base \<Longrightarrow>
     find_call rt patterns cwd_given opts
       = find_glob (platform_of rt) (node_at rt base) patterns (opts\<lparr>cwd := base\<rparr>)"
  by (simp add: find_call_def)

lemma walk_entries_extensionless:
  "isFile dirent \<Longrightarrow> extname name = [] \<Longrightarrow> \<not> matchFilesWithoutExtensions (options sc) \<Longrightarrow>
     walk_entries sc ((name, dirent) # rest) ns d = walk_entries sc rest ns d"
  by (auto simp: Let_def not_file_and_directory)

lemma collects_subset: "mset (filter (collects sc) vs) \<subseteq># mset vs"
  by (simp only: mset_filter multiset_filter_subset)

lemma visits_names:
  "e \<in> set (visits sc dir ns d) \<Longrightarrow>
     (\<exists>es name. opendir dir = Inr es \<and> name \<in> fst ` set es \<and> fst e = ns @ [name])
     \<or> length ns + 2 \<le> length (fst e)"
  "e \<in> set (visits_entries sc es ns d) \<Longrightarrow>
     (\<exists>name. name \<in> fst ` set es \<and> fst e = ns @ [name]) \<or> length ns + 2 \<le> length (fst e)"
proof (induction sc dir ns d and sc es ns d rule: visits_visits_entries.induct)
  case (1 sc dir dirNames currentDepth)
  show ?case
  proof (cases "opendir dir")
    case (Inl err)
    then show ?thesis using "1.prems" by (simp add: visits.simps split: if_splits)
  next
    case (Inr entries)
    then show ?thesis using "1.prems" "1.IH" [of entries]
      by (simp add: visits.simps split: if_splits)
  qed
next
  case (2 sc dirNames currentDepth)
  then show ?case by simp
next
  case (3 sc name dirent rest dirNames currentDepth)
  from "3.prems" have "e = (dirNames @ [name], dirent)
      \<or> (\<not> isIgnored sc (relPathUnix sc (dirNames @ [name])) \<and> isDirectory dirent
          \<and> depth_lt currentDepth (maxDepth (options sc))
          \<and> e \<in> set (visits sc (Some dirent) (dirNames @ [name]) (currentDepth + 1)))
      \<or> e \<in> set (visits_entries sc rest dirNames currentDepth)"
    by (auto simp: Let_def split: if_splits)
  then show ?case
  proof (elim disjE conjE)
    assume "e = (dirNames @ [name], dirent)"
    then show ?thesis by simp
  next
    assume h: "\<not> isIgnored sc (relPathUnix sc (dirNames @ [name]))" "isDirectory dirent"
      "depth_lt currentDepth (maxDepth (options sc))"
      "e \<in> set (visits sc (Some dirent) (dirNames @ [name]) (currentDepth + 1))"
    have "\<not> isIgnored sc (relPathUnix sc (dirNames @ [name])) \<and> isDirectory dirent
          \<and> depth_lt currentDepth (maxDepth (options sc))"
      using h by simp
    from "3.IH"(1) [OF refl this h(4)] have "length dirNames + 2 \<le> length (fst e)" by auto
    then show ?thesis by simp
  next
    assume "e \<in> set (visits_entries sc rest dirNames currentDepth)"
    from "3.IH"(2) [OF refl this] show ?thesis by auto
  qed
qed

lemma join_nonempty:
  assumes "hd names \<noteq> [] \<or> 2 \<le> length names" and "names \<noteq> []"
  shows "join [c] names \<noteq> []"
proof (cases names)
  case Nil
  then show ?thesis using assms by simp
next
  case (Cons w ws)
  then show ?thesis using assms by (cases ws) auto
qed

lemma resolve_not_base: "rel \<noteq> [] \<Longrightarrow> resolve pf base rel \<noteq> base"
  by (simp add: resolve_def)

lemma pushed_base: "pushed sc [] = (if absolute (options sc) then cwd (options sc) else [])"
  by (simp add: pushed_def relPath_def relative_def resolve_def)

lemma pushed_not_base:
  "relative (host sc) names \<noteq> [] \<Longrightarrow> pushed sc names \<noteq> pushed sc []"
  by (simp add: pushed_base) (simp add: pushed_def relPath_def resolve_not_base)

lemma walk_entries_other:
  "\<not> isFile dirent \<Longrightarrow> \<not> isDirectory dirent \<Longrightarrow>
     walk_entries sc ((name, dirent) # rest) ns d = walk_entries sc rest ns d"
  by (simp add: Let_def)

lemma visits_entries_other:
  "\<not> isDirectory dirent \<Longrightarrow>
     visits_entries sc ((name, dirent) # rest) ns d
       = (ns @ [name], dirent) # visits_entries sc rest ns d"
  by (simp add: Let_def)

section \<open>Trees to run the finder on\<close>

definition node_modules_tree :: node where
  "node_modules_tree =
     Dir [(''node_modules'', Dir [(''pkg'', Dir [(''index.js'', File (Inr []))])]),
          (''src'', Dir [(''index.js'', File (Inr []))])]"


definition example_tree :: node where
  "example_tree =
     Dir [(''a.ts'', File (Inr [])), (''b.js'', File (Inr [])),
          (''sub'', Dir [(''c.ts'', File (Inr []))])]"

definition example_scope :: "platform \<Rightarrow> scope" where
  "example_scope pf =
     \<lparr>host = pf, options = default_options ''/base'', matchers = [compiled ''**/*.ts''],
      ignoreMatchers = [], ignoreNegMatchers = []\<rparr>"

lemma example_build_scope:
  "build_scope pf (Some example_tree) (One ''**/*.ts'') (default_options ''/base'')
     = Some (Inr (example_scope pf))"
  by (simp add: build_scope_eq gitignore_settles_def example_scope_def ignore_list_def default_options_def
      deny_patterns_def override_patterns_def backslashes_to_slashes_def)

definition log_tree :: node where
  "log_tree =
     Dir [(''.gitignore'',
             File (Inr (''# logs'' @ [CHR 0x0A] @ ''  *.log '' @ [CHR 0x0A] @ [CHR 0x0A]
                        @ ''!keep.log'' @ [CHR 0x0A]))),
          (''keep.log'', File (Inr [])), (''other.log'', File (Inr [])),
          (''notes.txt'', File (Inr []))]"

definition log_scope :: "string list \<Rightarrow> scope" where
  "log_scope igns =
     \<lparr>host = Posix, options = (default_options ''/base'')\<lparr>useGitignore := True\<rparr>,
      matchers = [compiled ''*''],
      ignoreMatchers = map compiled (deny_patterns igns),
      ignoreNegMatchers = map compiled (override_patterns igns)\<rparr>"

definition deep_tree :: node where
  "deep_tree =
     Dir [(''a'', Dir [(''b'', Dir [(''c'', Dir [(''d.ts'', File (Inr []))])]),
                       (''x.ts'', File (Inr []))]),
          (''top.ts'', File (Inr []))]"

definition depth_scope :: "int \<Rightarrow> scope" where
  "depth_scope m =
     \<lparr>host = Posix,
      options = (default_options ''/base'')\<lparr>maxDepth := Finite m, type := all\<rparr>,
      matchers = [compiled ''**/*''], ignoreMatchers = [], ignoreNegMatchers = []\<rparr>"

text \<open>
  A host whose current directory is \<^verbatim>\<open>/base\<close>, where \<^verbatim>\<open>path.resolve\<close> leaves the absolute
  paths used below as they are, with the given node at every path; and a host whose current
  directory is gone.
\<close>

definition runtime_at :: "platform \<Rightarrow> node option \<Rightarrow> runtime" where
  "runtime_at pf fs =
     \<lparr>platform_of = pf, process_cwd = Inr ''/base'', path_resolve = (\<lambda>c. Inr c),
      node_at = (\<lambda>p. fs)\<rparr>"

definition gone_runtime :: "node option \<Rightarrow> runtime" where
  "gone_runtime fs =
     \<lparr>platform_of = Posix, process_cwd = Inl (SystemError ENOENT),
      path_resolve = (\<lambda>c. Inr c), node_at = (\<lambda>p. fs)\<rparr>"

definition fifo_tree :: node where
  "fifo_tree = Dir [(''.gitignore'', Fifo), (''x.log'', File (Inr []))]"


definition locked_tree :: node where
  "locked_tree =
     Dir [(''a.ts'', File (Inr [])), (''locked'', BadDir EACCES),
          (''sub'', Dir [(''c.ts'', File (Inr []))])]"

definition makefile_tree :: node where
  "makefile_tree = Dir [(''Makefile'', File (Inr [])), (''main.c'', File (Inr []))]"

definition makefile_scope :: "bool \<Rightarrow> scope" where
  "makefile_scope b =
     \<lparr>host = Posix, options = (default_options ''/base'')\<lparr>matchFilesWithoutExtensions := b\<rparr>,
      matchers = [compiled ''*''], ignoreMatchers = [], ignoreNegMatchers = []\<rparr>"

definition root_scope :: "bool \<Rightarrow> scope" where
  "root_scope b =
     \<lparr>host = Posix, options = (default_options ''/base'')\<lparr>type := all, absolute := b\<rparr>,
      matchers = [compiled ''*'', compiled []], ignoreMatchers = [], ignoreNegMatchers = []\<rparr>"

definition links_tree :: node where
  "links_tree =
     Dir [(''link'', Symlink (Some (Dir [(''inner.ts'', File (Inr []))]))),
          (''sock'', Special),
          (''real'', Dir [(''x.ts'', File (Inr []))]),
          (''dangling'', Symlink None)]"

lemma log_ignore_list:
  "ignore_list (Some log_tree) ((default_options ''/base'')\<lparr>useGitignore := True\<rparr>)
     = [''*.log'', ''!keep.log'']"
  by code_simp

lemma log_build_scope:
  "build_scope Posix (Some log_tree) (One ''*'') ((default_options ''/base'')\<lparr>useGitignore := True\<rparr>)
     = Some (Inr (log_scope [''*.log'', ''!keep.log'']))"
proof -
  have "gitignore_settles (Some log_tree) ((default_options ''/base'')\<lparr>useGitignore := True\<rparr>)"
    by code_simp
  from build_scope_eq [OF this] show ?thesis
    unfolding log_ignore_list by (simp add: log_scope_def backslashes_to_slashes_def)
qed

lemma depth_build_scope:
  "build_scope Posix fs (One ''**/*'')
       ((default_options ''/base'')\<lparr>maxDepth := Finite m, type := all\<rparr>)
     = Some (Inr (depth_scope m))"
  by (simp add: build_scope_eq gitignore_settles_def depth_scope_def ignore_list_def default_options_def
      deny_patterns_def override_patterns_def backslashes_to_slashes_def)

lemma makefile_build_scope:
  "build_scope Posix fs (One ''*'') ((default_options ''/base'')\<lparr>matchFilesWithoutExtensions := b\<rparr>)
     = Some (Inr (makefile_scope b))"
  by (simp add: build_scope_eq gitignore_settles_def makefile_scope_def ignore_list_def default_options_def
      deny_patterns_def override_patterns_def backslashes_to_slashes_def)

lemma root_build_scope:
  "build_scope Posix fs (Many [''*'', []]) ((default_options ''/base'')\<lparr>type := all, absolute := b\<rparr>)
     = Some (Inr (root_scope b))"
  by (simp add: build_scope_eq gitignore_settles_def root_scope_def ignore_list_def default_options_def
      deny_patterns_def override_patterns_def backslashes_to_slashes_def)

section \<open>The claims\<close>

subsection \<open>C1: which entries are collected, and in what form\<close>

text \<open>
  C1, as amended. For every call of \<^verbatim>\<open>find\<close>: the matchers are the compiled patterns; the
  result holds, once for each of them, the entries the walk visits that are candidates (not
  ignored, eligible under the entry kind, and for files passing the filter on names without
  extension) and whose path relative to the base, with \<^verbatim>\<open>/\<close> as separator, is matched by at
  least one matcher, and nothing else; and the string returned for an entry is its path
  relative to the base with the separator of the host (which is the POSIX form where the
  host's separator is \<^verbatim>\<open>/\<close>), or that path resolved against the base directory when absolute
  paths are asked for.
\<close>

theorem find_glob_collects:
  assumes "build_scope pf fs patterns opts = Some (Inr sc)"
  shows "those (map globToRegex (map backslashes_to_slashes (as_list patterns))) = Some (matchers sc)
    \<and> (\<exists>rs. find_glob pf fs patterns opts = Some (Inr rs)
          \<and> mset rs =
              image_mset (\<lambda>e. pushed sc (fst e))
                (filter_mset
                   (\<lambda>e. candidate sc e
                        \<and> list_ex (\<lambda>m. test m (relPathUnix sc (fst e))) (matchers sc))
                   (mset (visits sc fs [] 0))))
    \<and> pushed sc names =
        (if absolute opts then resolve pf (cwd opts) (relative pf names) else relative pf names)"
proof -
  from assms have sc: "host sc = pf" "options sc = opts"
    "matchers sc = map compiled (map backslashes_to_slashes (as_list patterns))"
    by (auto dest: build_scope_fields)
  have compiled: "those (map globToRegex (map backslashes_to_slashes (as_list patterns)))
      = Some (matchers sc)"
    unfolding sc by (rule those_compiled)
  have "collects sc = (\<lambda>e. candidate sc e
                        \<and> list_ex (\<lambda>m. test m (relPathUnix sc (fst e))) (matchers sc))"
    by (rule ext) (rule collects_candidate)
  then have "mset (walk sc fs [] 0) =
      image_mset (\<lambda>e. pushed sc (fst e))
        (filter_mset
           (\<lambda>e. candidate sc e \<and> list_ex (\<lambda>m. test m (relPathUnix sc (fst e))) (matchers sc))
           (mset (visits sc fs [] 0)))"
    by (simp only: walk_visits mset_map mset_filter)
  then have results: "\<exists>rs. find_glob pf fs patterns opts = Some (Inr rs)
          \<and> mset rs =
              image_mset (\<lambda>e. pushed sc (fst e))
                (filter_mset
                   (\<lambda>e. candidate sc e
                        \<and> list_ex (\<lambda>m. test m (relPathUnix sc (fst e))) (matchers sc))
                   (mset (visits sc fs [] 0)))"
    using find_glob_eq [OF assms] by simp
  have form: "pushed sc names =
        (if absolute opts then resolve pf (cwd opts) (relative pf names) else relative pf names)"
    by (simp add: pushed_def relPath_def sc)
  from compiled results form show ?thesis by blast
qed

theorem find_glob_collects_witness:
  "build_scope Posix (Some example_tree) (One ''**/*.ts'') (default_options ''/base'')
     = Some (Inr (example_scope Posix))
   \<and> find_glob Posix (Some example_tree) (One ''**/*.ts'') (default_options ''/base'')
     = Some (Inr [''a.ts'', ''sub/c.ts''])
   \<and> mset [''a.ts'', ''sub/c.ts''] =
       image_mset (\<lambda>e. pushed (example_scope Posix) (fst e))
         (filter_mset
            (\<lambda>e. candidate (example_scope Posix) e
                 \<and> list_ex (\<lambda>m. test m (relPathUnix (example_scope Posix) (fst e)))
                     (matchers (example_scope Posix)))
            (mset (visits (example_scope Posix) (Some example_tree) [] 0)))"
proof -
  have r: "find_glob Posix (Some example_tree) (One ''**/*.ts'') (default_options ''/base'')
     = Some (Inr [''a.ts'', ''sub/c.ts''])"
    by code_simp
  show ?thesis
    using find_glob_collects [OF example_build_scope [of Posix], of "[]"] example_build_scope [of Posix] r
    by auto
qed

text \<open>
  C1 as stated fails on a host whose separator is the backslash: the path tested against the
  matchers has \<^verbatim>\<open>/\<close>, the path returned has the host's separator.
\<close>

theorem find_glob_separator_counterexample:
  "find_glob Win32 (Some example_tree) (One ''**/*.ts'') (default_options ''/base'')
     = Some (Inr [''a.ts'', ''sub'' @ [backslash] @ ''c.ts''])
   \<and> relPathUnix (example_scope Win32) [''sub'', ''c.ts''] = ''sub/c.ts''
   \<and> ''sub'' @ [backslash] @ ''c.ts'' \<noteq> ''sub/c.ts''"
  by code_simp

subsection \<open>C2: what a compiled pattern accepts\<close>

text \<open>
  What a compiled pattern accepts, on every input. \<^verbatim>\<open>globToRegex\<close> does not fail, and the
  matcher accepts a path iff the whole path can be cut into one piece for each token of the
  pattern, where a character other than \<^verbatim>\<open>?\<close> and \<^verbatim>\<open>*\<close> stands for itself (the
  metacharacters of regular expressions too), \<^verbatim>\<open>?\<close> for one character that is not a
  separator, \<^verbatim>\<open>**/\<close> for nothing or for a run of one or more characters, none of them a line
  terminator, followed by a separator, and every other \<^verbatim>\<open>*\<close> for any number of characters
  that are not separators. The empty pattern accepts the empty path and nothing else.
\<close>

theorem globToRegex_glob_semantics:
  "globToRegex pattern \<noteq> None
   \<and> (accepts pattern p \<longleftrightarrow> glob_semantics_no_newline pattern p)
   \<and> (accepts [] p \<longleftrightarrow> p = [])"
  by (simp add: accepts_def globToRegex_tokens test_lang tokens_lang
      glob_semantics_no_newline_def)

theorem globToRegex_glob_semantics_witness:
  "globToRegex ''**/?b*.js'' \<noteq> None
   \<and> accepts ''**/?b*.js'' ''src/lib/abc.js''
   \<and> glob_semantics_no_newline ''**/?b*.js'' ''src/lib/abc.js''
   \<and> \<not> accepts [] ''a''"
proof -
  have "accepts ''**/?b*.js'' ''src/lib/abc.js''" by code_simp
  then show ?thesis
    using globToRegex_glob_semantics [of "''**/?b*.js''" "''src/lib/abc.js''"]
      globToRegex_glob_semantics [of "[]" "''a''"]
    by blast
qed

text \<open>
  On a path that holds no line terminator this is the semantics C2 states, where the run of
  \<^verbatim>\<open>**/\<close> may hold any character.
\<close>

theorem globToRegex_stated_semantics:
  assumes "\<forall>c\<in>set p. \<not> line_terminator c"
  shows "accepts pattern p \<longleftrightarrow> glob_semantics pattern p"
  using glob_accepts_no_terminator [OF assms]
  by (simp add: accepts_lang glob_semantics_def)

theorem globToRegex_stated_semantics_witness:
  "accepts ''**/*.js'' ''src/index.js'' \<and> glob_semantics ''**/*.js'' ''src/index.js''"
proof -
  have "\<forall>c\<in>set ''src/index.js''. \<not> line_terminator c" by code_simp
  moreover have "accepts ''**/*.js'' ''src/index.js''" by code_simp
  ultimately show ?thesis
    using globToRegex_stated_semantics [of "''src/index.js''" "''**/*.js''"] by simp
qed

text \<open>
  C2 at a directory whose name holds a line feed. The path below is the segment \<^verbatim>\<open>x\n\<close>, a
  separator and \<^verbatim>\<open>a\<close>: the semantics C2 states accept it for \<^verbatim>\<open>**/a\<close>, the matcher does
  not, since the run that \<^verbatim>\<open>**/\<close> stands for is compiled to \<^verbatim>\<open>.+\<close> and \<^verbatim>\<open>.\<close> matches no line
  terminator. The classes compiled for \<^verbatim>\<open>?\<close> and \<^verbatim>\<open>*\<close> do match a line feed, so \<^verbatim>\<open>*/a\<close>
  finds the file that \<^verbatim>\<open>**/a\<close> misses.
\<close>

theorem globstar_rejects_newline_directory:
  "glob_semantics ''**/a'' (''x'' @ [CHR 0x0A] @ ''/a'')
   \<and> \<not> accepts ''**/a'' (''x'' @ [CHR 0x0A] @ ''/a'')
   \<and> accepts ''*/a'' (''x'' @ [CHR 0x0A] @ ''/a'')
   \<and> find_glob Posix (Some (Dir [(''x'' @ [CHR 0x0A], Dir [(''a'', File (Inr []))])]))
         (One ''**/a'') (default_options ''/base'')
       = Some (Inr [])
   \<and> find_glob Posix (Some (Dir [(''x'' @ [CHR 0x0A], Dir [(''a'', File (Inr []))])]))
         (One ''*/a'') (default_options ''/base'')
       = Some (Inr [''x'' @ [CHR 0x0A] @ ''/a''])"
  by code_simp

subsection \<open>C3: an override pattern wins over every deny pattern\<close>

text \<open>
  C3. For every ignore list and every path: the loop over the list does not fail, the
  override matchers are the compiled override patterns and the deny matchers the compiled deny
  patterns; when an override matcher matches the path, \<^verbatim>\<open>isIgnored\<close> is false whatever the
  deny matchers do; \<^verbatim>\<open>isIgnored\<close> is true exactly when no override matcher and some deny
  matcher matches; and a list with the same patterns in another order decides every path the
  same way.
\<close>

theorem isIgnored_override_precedence:
  assumes "ignore_loop igns ([], []) = Some (ignoreMatchers sc, ignoreNegMatchers sc)"
  shows "those (map globToRegex (override_patterns igns)) = Some (ignoreNegMatchers sc)
    \<and> those (map globToRegex (deny_patterns igns)) = Some (ignoreMatchers sc)
    \<and> (list_ex (\<lambda>m. test m p) (ignoreNegMatchers sc) \<longrightarrow> \<not> isIgnored sc p)
    \<and> (isIgnored sc p \<longleftrightarrow>
          \<not> list_ex (\<lambda>m. test m p) (ignoreNegMatchers sc)
          \<and> list_ex (\<lambda>m. test m p) (ignoreMatchers sc))
    \<and> (isIgnored sc p \<longleftrightarrow>
          \<not> (\<exists>P\<in>set (override_patterns igns). accepts P p)
          \<and> (\<exists>P\<in>set (deny_patterns igns). accepts P p))
    \<and> (mset igns' = mset igns
         \<and> ignore_loop igns' ([], []) = Some (ignoreMatchers sc', ignoreNegMatchers sc')
         \<longrightarrow> isIgnored sc' p = isIgnored sc p)"
proof -
  from assms have m: "ignoreMatchers sc = map compiled (deny_patterns igns)"
    "ignoreNegMatchers sc = map compiled (override_patterns igns)"
    by (simp_all add: ignore_loop_compiled)
  have a: "those (map globToRegex (override_patterns igns)) = Some (ignoreNegMatchers sc)"
    and b: "those (map globToRegex (deny_patterns igns)) = Some (ignoreMatchers sc)"
    by (simp_all add: m those_compiled)
  have c: "isIgnored sc p \<longleftrightarrow>
          \<not> (\<exists>P\<in>set (override_patterns igns). accepts P p)
          \<and> (\<exists>P\<in>set (deny_patterns igns). accepts P p)"
    by (simp add: isIgnored_iff m list_ex_compiled)
  have d: "mset igns' = mset igns
         \<and> ignore_loop igns' ([], []) = Some (ignoreMatchers sc', ignoreNegMatchers sc')
         \<longrightarrow> isIgnored sc' p = isIgnored sc p"
  proof
    assume h: "mset igns' = mset igns
         \<and> ignore_loop igns' ([], []) = Some (ignoreMatchers sc', ignoreNegMatchers sc')"
    then have m': "ignoreMatchers sc' = map compiled (deny_patterns igns')"
      "ignoreNegMatchers sc' = map compiled (override_patterns igns')"
      by (simp_all add: ignore_loop_compiled)
    from h have "mset igns' = mset igns" by simp
    then have s: "set igns' = set igns" by (rule mset_eq_setD)
    have o: "set (override_patterns igns') = set (override_patterns igns)"
      using s by (rule override_patterns_set)
    have dn: "set (deny_patterns igns') = set (deny_patterns igns)"
      using s by (rule deny_patterns_set)
    show "isIgnored sc' p = isIgnored sc p"
      by (simp add: isIgnored_iff m m' list_ex_compiled o dn)
  qed
  have e: "list_ex (\<lambda>m. test m p) (ignoreNegMatchers sc) \<longrightarrow> \<not> isIgnored sc p"
    by (simp add: isIgnored_iff)
  show ?thesis by (intro conjI a b c d e isIgnored_iff)
qed

theorem isIgnored_override_precedence_witness:
  "build_scope Posix (Some log_tree) (One ''*'')
       ((default_options ''/base'')\<lparr>useGitignore := True\<rparr>)
     = Some (Inr (log_scope [''*.log'', ''!keep.log'']))
   \<and> ignore_loop [''*.log'', ''!keep.log''] ([], [])
     = Some (ignoreMatchers (log_scope [''*.log'', ''!keep.log'']),
             ignoreNegMatchers (log_scope [''*.log'', ''!keep.log'']))
   \<and> \<not> isIgnored (log_scope [''*.log'', ''!keep.log'']) ''keep.log''
   \<and> isIgnored (log_scope [''*.log'', ''!keep.log'']) ''other.log''
   \<and> \<not> isIgnored (log_scope [''*.log'', ''!keep.log'']) ''notes.txt''
   \<and> isIgnored (log_scope [''!keep.log'', ''*.log'']) ''keep.log''
       = isIgnored (log_scope [''*.log'', ''!keep.log'']) ''keep.log''
   \<and> find_glob Posix (Some log_tree) (One ''*'')
       ((default_options ''/base'')\<lparr>useGitignore := True\<rparr>)
     = Some (Inr [''.gitignore'', ''keep.log'', ''notes.txt''])"
proof -
  let ?a = "[''*.log'', ''!keep.log'']" and ?b = "[''!keep.log'', ''*.log'']"
  have la: "ignore_loop ?a ([], []) = Some (ignoreMatchers (log_scope ?a), ignoreNegMatchers (log_scope ?a))"
    by (simp add: ignore_loop_compiled log_scope_def)
  have lb: "ignore_loop ?b ([], []) = Some (ignoreMatchers (log_scope ?b), ignoreNegMatchers (log_scope ?b))"
    by (simp add: ignore_loop_compiled log_scope_def)
  have perm: "mset ?b = mset ?a" by simp
  have k: "list_ex (\<lambda>m. test m ''keep.log'') (ignoreNegMatchers (log_scope ?a))" by code_simp
  have o: "\<not> list_ex (\<lambda>m. test m ''other.log'') (ignoreNegMatchers (log_scope ?a))
      \<and> list_ex (\<lambda>m. test m ''other.log'') (ignoreMatchers (log_scope ?a))" by code_simp
  have n: "\<not> list_ex (\<lambda>m. test m ''notes.txt'') (ignoreMatchers (log_scope ?a))" by code_simp
  have f: "find_glob Posix (Some log_tree) (One ''*'')
       ((default_options ''/base'')\<lparr>useGitignore := True\<rparr>)
     = Some (Inr [''.gitignore'', ''keep.log'', ''notes.txt''])" by code_simp
  show ?thesis
    using isIgnored_override_precedence [OF la, of "''keep.log''" ?b "log_scope ?b"]
      isIgnored_override_precedence [OF la, of "''other.log''" ?b "log_scope ?b"]
      isIgnored_override_precedence [OF la, of "''notes.txt''" ?b "log_scope ?b"]
      la lb perm k o n f log_build_scope
    by blast
qed

subsection \<open>C4: the depth bound\<close>

text \<open>
  C4. For a depth bound \<open>m \<ge> 0\<close>: a walk at a depth above \<open>m\<close> does nothing; every entry
  visited from the base lies at depth at most \<open>m\<close> (its path has at most \<open>m + 1\<close> names); in a
  directory at depth \<open>m\<close> (or more) every entry is visited and none is descended into; and with
  \<open>m = 0\<close> the entries visited are exactly the entries of the base directory, and every
  result is the path of one of them.
\<close>

theorem walk_depth_bound:
  assumes "maxDepth (options sc) = Finite m" and "0 \<le> m"
  shows "(m < int d \<longrightarrow> walk sc dir ns d = [] \<and> visits sc dir ns d = [])
    \<and> (\<forall>e\<in>set (visits sc fs [] 0). int (length (fst e)) \<le> m + 1)
    \<and> (m \<le> int d \<longrightarrow>
          visits_entries sc es ns d = map (\<lambda>(name, dirent). (ns @ [name], dirent)) es)
    \<and> (m = 0 \<and> opendir fs = Inr es \<longrightarrow>
          visits sc fs [] 0 = map (\<lambda>(name, dirent). ([name], dirent)) es
          \<and> set (walk sc fs [] 0) \<subseteq> (\<lambda>(name, dirent). pushed sc [name]) ` set es)"
proof -
  have a: "m < int d \<longrightarrow> walk sc dir ns d = [] \<and> visits sc dir ns d = []"
    using assms(1) by (simp add: walk_beyond visits_beyond)
  have b: "\<forall>e\<in>set (visits sc fs [] 0). int (length (fst e)) \<le> m + 1"
  proof
    fix e assume "e \<in> set (visits sc fs [] 0)"
    from visits_depth(1) [OF assms(1) this] show "int (length (fst e)) \<le> m + 1" by simp
  qed
  have c: "m \<le> int d \<longrightarrow>
          visits_entries sc es ns d = map (\<lambda>(name, dirent). (ns @ [name], dirent)) es"
    using assms(1) by (simp add: visits_entries_no_descent)
  have d: "m = 0 \<and> opendir fs = Inr es \<longrightarrow>
          visits sc fs [] 0 = map (\<lambda>(name, dirent). ([name], dirent)) es
          \<and> set (walk sc fs [] 0) \<subseteq> (\<lambda>(name, dirent). pushed sc [name]) ` set es"
  proof
    assume h: "m = 0 \<and> opendir fs = Inr es"
    have v: "visits sc fs [] 0 = map (\<lambda>(name, dirent). ([name], dirent)) es"
      using h assms(1) by (simp add: visits.simps visits_entries_no_descent)
    have "set (walk sc fs [] 0) \<subseteq> (\<lambda>e. pushed sc (fst e)) ` set (visits sc fs [] 0)"
      unfolding walk_visits by auto
    also have "\<dots> = (\<lambda>(name, dirent). pushed sc [name]) ` set es"
      unfolding v by (simp add: image_image case_prod_beta)
    finally show "visits sc fs [] 0 = map (\<lambda>(name, dirent). ([name], dirent)) es
          \<and> set (walk sc fs [] 0) \<subseteq> (\<lambda>(name, dirent). pushed sc [name]) ` set es"
      using v by simp
  qed
  show ?thesis by (intro conjI a b c d)
qed


theorem walk_depth_bound_witness:
  "maxDepth (options (depth_scope 1)) = Finite 1 \<and> (0::int) \<le> 1
   \<and> walk (depth_scope 1) (Some deep_tree) [] 2 = []
   \<and> map fst (visits (depth_scope 1) (Some deep_tree) [] 0)
       = [[''a''], [''a'', ''b''], [''a'', ''x.ts''], [''top.ts'']]
   \<and> find_glob Posix (Some deep_tree) (One ''**/*'')
         ((default_options ''/base'')\<lparr>maxDepth := Finite 1, type := all\<rparr>)
       = Some (Inr [''a'', ''a/b'', ''a/x.ts'', ''top.ts''])
   \<and> maxDepth (options (depth_scope 0)) = Finite 0
   \<and> map fst (visits (depth_scope 0) (Some deep_tree) [] 0) = [[''a''], [''top.ts'']]
   \<and> find_glob Posix (Some deep_tree) (One ''**/*'')
         ((default_options ''/base'')\<lparr>maxDepth := Finite 0, type := all\<rparr>)
       = Some (Inr [''a'', ''top.ts''])"
proof -
  have m1: "maxDepth (options (depth_scope 1)) = Finite 1"
    and m0: "maxDepth (options (depth_scope 0)) = Finite 0"
    by (simp_all add: depth_scope_def)
  have v1: "map fst (visits (depth_scope 1) (Some deep_tree) [] 0)
       = [[''a''], [''a'', ''b''], [''a'', ''x.ts''], [''top.ts'']]" by code_simp
  have f1: "find_glob Posix (Some deep_tree) (One ''**/*'')
         ((default_options ''/base'')\<lparr>maxDepth := Finite 1, type := all\<rparr>)
       = Some (Inr [''a'', ''a/b'', ''a/x.ts'', ''top.ts''])" by code_simp
  have f0: "find_glob Posix (Some deep_tree) (One ''**/*'')
         ((default_options ''/base'')\<lparr>maxDepth := Finite 0, type := all\<rparr>)
       = Some (Inr [''a'', ''top.ts''])" by code_simp
  have o: "opendir (Some deep_tree) = Inr [(''a'', Dir [(''b'', Dir [(''c'', Dir [(''d.ts'', File (Inr []))])]),
                       (''x.ts'', File (Inr []))]),
          (''top.ts'', File (Inr []))]"
    by (simp add: deep_tree_def)
  have w: "walk (depth_scope 1) (Some deep_tree) [] 2 = []"
    using walk_depth_bound [OF m1, where d = 2 and dir = "Some deep_tree" and ns = "[]"
        and fs = "Some deep_tree" and es = "[]"]
    by simp
  have v0: "map fst (visits (depth_scope 0) (Some deep_tree) [] 0) = [[''a''], [''top.ts'']]"
    using walk_depth_bound [OF m0, where d = 0 and dir = "Some deep_tree" and ns = "[]"
        and fs = "Some deep_tree"] o
    by simp
  show ?thesis using m1 m0 v1 f1 f0 w v0 by simp
qed

subsection \<open>C5: anomalies of the file system are absorbed\<close>

text \<open>
  C5, as amended. Every call of \<^verbatim>\<open>find\<close> whose base directory resolves and whose read of
  \<^verbatim>\<open>.gitignore\<close>, where \<^verbatim>\<open>useGitignore\<close> is on, settles, returns a sequence of matches. A
  directory that cannot be opened yields nothing from its walk, and the results of a listing
  that holds such a directory are those of the same listing with an empty directory in its
  place: its siblings are processed as before. When the read of \<^verbatim>\<open>.gitignore\<close> fails it gives
  no ignore patterns, and the call returns what it returns with \<^verbatim>\<open>useGitignore\<close> off.
\<close>

theorem find_never_rejects:
  assumes "baseDir rt cwd_given = Inr base" and "gitignore_settles (node_at rt base) opts"
  shows "(\<exists>rs. find_call rt patterns cwd_given opts = Some (Inr rs))
   \<and> (opendir dir = Inl err \<longrightarrow> walk sc dir ns d = [])
   \<and> (isDirectory dirent \<and> opendir (Some dirent) = Inl err \<longrightarrow>
        walk_entries sc (before @ (name, dirent) # after) ns d
          = walk_entries sc (before @ (name, Dir []) # after) ns d)
   \<and> (readFile (child fs ''.gitignore'') = Some (Inl err') \<longrightarrow>
        loadGitignore fs = Some []
        \<and> find_glob pf fs patterns opts
            = find_glob pf fs patterns (opts\<lparr>useGitignore := False\<rparr>))"
proof -
  have a: "\<exists>rs. find_call rt patterns cwd_given opts = Some (Inr rs)"
    unfolding find_call_resolved [OF assms(1)]
    using assms(2) by (intro find_glob_total) simp
  have b: "opendir dir = Inl err \<longrightarrow> walk sc dir ns d = []"
    by (simp add: walk_opendir_error)
  have c: "isDirectory dirent \<and> opendir (Some dirent) = Inl err \<longrightarrow>
        walk_entries sc (before @ (name, dirent) # after) ns d
          = walk_entries sc (before @ (name, Dir []) # after) ns d"
  proof
    assume "isDirectory dirent \<and> opendir (Some dirent) = Inl err"
    then have "walk_entries sc ((name, dirent) # after) ns d
        = walk_entries sc ((name, Dir []) # after) ns d"
      by (intro walk_entries_unopenable) simp_all
    then show "walk_entries sc (before @ (name, dirent) # after) ns d
          = walk_entries sc (before @ (name, Dir []) # after) ns d"
      by (simp only: walk_entries_append)
  qed
  have d: "readFile (child fs ''.gitignore'') = Some (Inl err') \<longrightarrow>
        loadGitignore fs = Some []
        \<and> find_glob pf fs patterns opts
            = find_glob pf fs patterns (opts\<lparr>useGitignore := False\<rparr>)"
    using find_glob_no_gitignore [of fs err' pf patterns opts] loadGitignore_error [of fs err']
    by blast
  show ?thesis by (intro conjI a b c d)
qed

theorem find_never_rejects_witness:
  "baseDir (runtime_at Posix (Some locked_tree)) (Some ''/base'') = Inr ''/base''
   \<and> gitignore_settles (Some locked_tree) ((default_options ''/base'')\<lparr>useGitignore := True\<rparr>)
   \<and> find_call (runtime_at Posix (Some locked_tree)) (One ''**/*.ts'') (Some ''/base'')
       ((default_options ''/base'')\<lparr>useGitignore := True\<rparr>)
     = Some (Inr [''a.ts'', ''sub/c.ts''])
   \<and> opendir (Some (BadDir EACCES)) = Inl EACCES
   \<and> walk (example_scope Posix) (Some (BadDir EACCES)) [''locked''] 1 = []
   \<and> isDirectory (BadDir EACCES)
   \<and> walk_entries (example_scope Posix) [(''inner'', BadDir EACCES)] [''locked''] 1
       = walk_entries (example_scope Posix) [(''inner'', Dir [])] [''locked''] 1
   \<and> readFile (child (Some locked_tree) ''.gitignore'') = Some (Inl ENOENT)
   \<and> loadGitignore (Some locked_tree) = Some []
   \<and> find_glob Posix (Some locked_tree) (One ''**/*.ts'')
       ((default_options ''/base'')\<lparr>useGitignore := True\<rparr>)
     = find_glob Posix (Some locked_tree) (One ''**/*.ts'')
       ((default_options ''/base'')\<lparr>useGitignore := True, useGitignore := False\<rparr>)"
proof -
  have b: "baseDir (runtime_at Posix (Some locked_tree)) (Some ''/base'') = Inr ''/base''"
    by (simp add: baseDir_def runtime_at_def)
  have n: "node_at (runtime_at Posix (Some locked_tree)) ''/base'' = Some locked_tree"
    by (simp add: runtime_at_def)
  have g: "gitignore_settles (Some locked_tree) ((default_options ''/base'')\<lparr>useGitignore := True\<rparr>)"
    by code_simp
  have f: "find_call (runtime_at Posix (Some locked_tree)) (One ''**/*.ts'') (Some ''/base'')
       ((default_options ''/base'')\<lparr>useGitignore := True\<rparr>)
     = Some (Inr [''a.ts'', ''sub/c.ts''])" by code_simp
  have o: "opendir (Some (BadDir EACCES)) = Inl EACCES" by simp
  have r: "readFile (child (Some locked_tree) ''.gitignore'') = Some (Inl ENOENT)" by code_simp
  show ?thesis
    using find_never_rejects [where rt = "runtime_at Posix (Some locked_tree)"
        and cwd_given = "Some ''/base''" and base = "''/base''"
        and opts = "(default_options ''/base'')\<lparr>useGitignore := True\<rparr>"
        and fs = "Some locked_tree" and pf = Posix
        and patterns = "One ''**/*.ts''"
        and dir = "Some (BadDir EACCES)" and err = EACCES and sc = "example_scope Posix"
        and ns = "[''locked'']" and d = 1 and before = "[]" and after = "[]" and name = "''inner''"
        and dirent = "BadDir EACCES" and err' = ENOENT] b n g f o r
    by (simp del: walk_entries.simps)
qed

text \<open>
  C5 as stated fails in two ways. Where \<^verbatim>\<open>.gitignore\<close> is a FIFO that nobody writes to and
  \<^verbatim>\<open>useGitignore\<close> is on, the read never settles and neither does the call. Where the caller
  gives no \<^verbatim>\<open>cwd\<close> and the current directory of the process is gone, \<^verbatim>\<open>process.cwd()\<close>
  throws outside every \<^verbatim>\<open>try\<close> and the call is rejected.
\<close>

theorem find_unsettled_counterexample:
  "find_call (runtime_at Posix (Some fifo_tree)) (One ''*'') (Some ''/base'')
       ((default_options [])\<lparr>useGitignore := True\<rparr>)
     = None
   \<and> find_call (gone_runtime (Some example_tree)) (One ''*'') None (default_options [])
     = Some (Inl (SystemError ENOENT))"
  by code_simp

subsection \<open>C6: an invalid base directory\<close>




subsection \<open>C7: the \<^verbatim>\<open>node_modules\<close> scenario\<close>

text \<open>
  C7, as amended. On the tree with \<^verbatim>\<open>node_modules/pkg/index.js\<close> and \<^verbatim>\<open>src/index.js\<close>, the
  pattern \<^verbatim>\<open>**/*.js\<close> and the ignore list \<^verbatim>\<open>**/node_modules/**\<close>, the call returns one
  path, that of \<^verbatim>\<open>index.js\<close> in \<^verbatim>\<open>src\<close>, written with the separator of the host:
  \<^verbatim>\<open>src/index.js\<close> on a POSIX host. Nothing under \<^verbatim>\<open>node_modules\<close> is returned on any host.
\<close>

theorem find_node_modules_scenario:
  "find_glob pf (Some node_modules_tree) (One ''**/*.js'')
     ((default_options base)\<lparr>ignore := Many [''**/node_modules/**'']\<rparr>)
   = Some (Inr [relative pf [''src'', ''index.js'']])"
proof (cases pf)
  case Posix
  have "find_glob Posix (Some node_modules_tree) (One ''**/*.js'')
      ((default_options base)\<lparr>ignore := Many [''**/node_modules/**'']\<rparr>)
    = Some (Inr [relative Posix [''src'', ''index.js'']])"
    by code_simp
  then show ?thesis using Posix by simp
next
  case Win32
  have "find_glob Win32 (Some node_modules_tree) (One ''**/*.js'')
      ((default_options base)\<lparr>ignore := Many [''**/node_modules/**'']\<rparr>)
    = Some (Inr [relative Win32 [''src'', ''index.js'']])"
    by code_simp
  then show ?thesis using Win32 by simp
qed

theorem find_node_modules_scenario_witness:
  "find_glob Posix (Some node_modules_tree) (One ''**/*.js'')
     ((default_options ''/base'')\<lparr>ignore := Many [''**/node_modules/**'']\<rparr>)
   = Some (Inr [''src/index.js''])"
  using find_node_modules_scenario [of Posix "''/base''"] by (simp add: relative_def)

text \<open>C7 as stated fails on a host whose separator is the backslash.\<close>

theorem find_node_modules_counterexample:
  "find_glob Win32 (Some node_modules_tree) (One ''**/*.js'')
     ((default_options ''/base'')\<lparr>ignore := Many [''**/node_modules/**'']\<rparr>)
   = Some (Inr [''src'' @ [backslash] @ ''index.js''])
   \<and> [''src'' @ [backslash] @ ''index.js''] \<noteq> [''src/index.js'']"
  by code_simp

subsection \<open>C8: files whose name has no extension\<close>

text \<open>
  C8. With \<^verbatim>\<open>matchFilesWithoutExtensions\<close> false, the loop pushes nothing for a file whose
  name has no extension, whatever the matchers accept, and no result of the call comes from
  such a file. With the option true, every visited file that is not ignored, under an entry
  kind that admits files, is in the results whenever some matcher accepts its path, with or
  without an extension.
\<close>

theorem extensionless_filter:
  assumes "build_scope pf fs patterns opts = Some (Inr sc)"
  shows "(isFile dirent \<and> extname name = [] \<and> \<not> matchFilesWithoutExtensions opts \<longrightarrow>
         walk_entries sc ((name, dirent) # rest) ns d = walk_entries sc rest ns d)
    \<and> (\<exists>rs. find_glob pf fs patterns opts = Some (Inr rs)
    \<and> (\<not> matchFilesWithoutExtensions opts \<longrightarrow>
         (\<exists>es. mset es \<subseteq># mset (visits sc fs [] 0)
            \<and> rs = map (\<lambda>e. pushed sc (fst e)) es
            \<and> (\<forall>e\<in>set es. \<not> (isFile (snd e) \<and> extname (last (fst e)) = []))))
    \<and> (matchFilesWithoutExtensions opts \<longrightarrow>
         (\<forall>e\<in>set (visits sc fs [] 0).
            isFile (snd e) \<and> \<not> isIgnored sc (relPathUnix sc (fst e))
            \<and> (type opts = files \<or> type opts = all)
            \<and> list_ex (\<lambda>m. test m (relPathUnix sc (fst e))) (matchers sc)
            \<longrightarrow> pushed sc (fst e) \<in> set rs)))"
proof -
  from assms have o: "options sc = opts" by (auto dest: build_scope_fields)
  let ?vs = "visits sc fs [] 0"
  let ?es = "filter (collects sc) ?vs"
  have rs: "find_glob pf fs patterns opts = Some (Inr (map (\<lambda>e. pushed sc (fst e)) ?es))"
    using find_glob_eq [OF assms] by (simp only: walk_visits)
  have a: "\<not> matchFilesWithoutExtensions opts \<longrightarrow>
         (\<exists>es. mset es \<subseteq># mset ?vs
            \<and> map (\<lambda>e. pushed sc (fst e)) ?es = map (\<lambda>e. pushed sc (fst e)) es
            \<and> (\<forall>e\<in>set es. \<not> (isFile (snd e) \<and> extname (last (fst e)) = [])))"
  proof
    assume n: "\<not> matchFilesWithoutExtensions opts"
    have "\<forall>e\<in>set ?es. \<not> (isFile (snd e) \<and> extname (last (fst e)) = [])"
      using n by (auto simp: collects_def o not_file_and_directory)
    then show "\<exists>es. mset es \<subseteq># mset ?vs
            \<and> map (\<lambda>e. pushed sc (fst e)) ?es = map (\<lambda>e. pushed sc (fst e)) es
            \<and> (\<forall>e\<in>set es. \<not> (isFile (snd e) \<and> extname (last (fst e)) = []))"
      using collects_subset [of sc ?vs] by blast
  qed
  have b: "isFile dirent \<and> extname name = [] \<and> \<not> matchFilesWithoutExtensions opts \<longrightarrow>
         walk_entries sc ((name, dirent) # rest) ns d = walk_entries sc rest ns d"
    using walk_entries_extensionless [of dirent name sc rest ns d] by (simp add: o)
  have c: "matchFilesWithoutExtensions opts \<longrightarrow>
         (\<forall>e\<in>set ?vs.
            isFile (snd e) \<and> \<not> isIgnored sc (relPathUnix sc (fst e))
            \<and> (type opts = files \<or> type opts = all)
            \<and> list_ex (\<lambda>m. test m (relPathUnix sc (fst e))) (matchers sc)
            \<longrightarrow> pushed sc (fst e) \<in> set (map (\<lambda>e. pushed sc (fst e)) ?es))"
    by (auto simp: collects_def o some_matcher_def)
  show ?thesis
    unfolding rs using a b c by blast
qed

theorem extensionless_filter_witness:
  "build_scope Posix (Some makefile_tree) (One ''*'')
       ((default_options ''/base'')\<lparr>matchFilesWithoutExtensions := False\<rparr>)
     = Some (Inr (makefile_scope False))
   \<and> accepts ''*'' ''Makefile''
   \<and> walk_entries (makefile_scope False) [(''Makefile'', File (Inr []))] [] 0 = []
   \<and> find_glob Posix (Some makefile_tree) (One ''*'')
       ((default_options ''/base'')\<lparr>matchFilesWithoutExtensions := False\<rparr>)
     = Some (Inr [''main.c''])
   \<and> find_glob Posix (Some makefile_tree) (One ''*'') (default_options ''/base'')
     = Some (Inr [''Makefile'', ''main.c''])"
proof -
  have a: "accepts ''*'' ''Makefile''" by code_simp
  have e: "extname ''Makefile'' = []" by code_simp
  have f: "find_glob Posix (Some makefile_tree) (One ''*'')
       ((default_options ''/base'')\<lparr>matchFilesWithoutExtensions := False\<rparr>)
     = Some (Inr [''main.c''])" by code_simp
  have t: "find_glob Posix (Some makefile_tree) (One ''*'') (default_options ''/base'')
     = Some (Inr [''Makefile'', ''main.c''])" by code_simp
  have w: "walk_entries (makefile_scope False) [(''Makefile'', File (Inr []))] [] 0 = []"
    using extensionless_filter [OF makefile_build_scope [of "Some makefile_tree" False],
        where dirent = "File (Inr [])" and name = "''Makefile''" and rest = "[]"
        and ns = "[]" and d = 0, THEN conjunct1] e
    by (simp del: walk_entries.simps(2))
  show ?thesis
    using a f t w makefile_build_scope [of "Some makefile_tree" False] by simp
qed

subsection \<open>C9: the base directory is never a result\<close>

text \<open>
  C9. Every entry the walk visits has a name below the base, so the matchers and the
  ignore rules are never applied to the base itself; and where the entries of the base
  directory have names that are not empty, no string of the result is the one the base
  itself would be returned as (the empty relative path, or the base directory when absolute
  paths are asked for), whatever the patterns and the options are.
\<close>

theorem base_never_collected:
  assumes "build_scope pf fs patterns opts = Some (Inr sc)" and "entry_names_nonempty fs"
  shows "(\<forall>e\<in>set (visits sc fs [] 0). fst e \<noteq> [])
    \<and> (\<exists>rs. find_glob pf fs patterns opts = Some (Inr rs) \<and> pushed sc [] \<notin> set rs)
    \<and> pushed sc [] = (if absolute opts then cwd opts else [])"
proof -
  from assms(1) have o: "options sc = opts" by (auto dest: build_scope_fields)
  have v: "fst e \<noteq> [] \<and> relative (host sc) (fst e) \<noteq> []" if "e \<in> set (visits sc fs [] 0)" for e
  proof -
    from visits_names(1) [OF that]
    consider es name where "opendir fs = Inr es" "name \<in> fst ` set es" "fst e = [name]"
      | "2 \<le> length (fst e)"
      by auto
    then show ?thesis
    proof cases
      case 1
      then have "name \<noteq> []" using assms(2) by (auto simp: entry_names_nonempty_def list_all_iff)
      then show ?thesis using 1 by (simp add: relative_def)
    next
      case 2
      then have "fst e \<noteq> []" by auto
      then show ?thesis using 2 by (simp add: relative_def join_nonempty)
    qed
  qed
  have a: "\<forall>e\<in>set (visits sc fs [] 0). fst e \<noteq> []" using v by blast
  have "pushed sc [] \<notin> set (walk sc fs [] 0)"
    unfolding walk_visits using v pushed_not_base by fastforce
  then have b: "\<exists>rs. find_glob pf fs patterns opts = Some (Inr rs) \<and> pushed sc [] \<notin> set rs"
    using find_glob_eq [OF assms(1)] by simp
  have c: "pushed sc [] = (if absolute opts then cwd opts else [])"
    by (simp add: pushed_base o)
  show ?thesis by (intro conjI a b c)
qed

theorem base_never_collected_witness:
  "build_scope Posix (Some example_tree) (Many [''*'', []])
       ((default_options ''/base'')\<lparr>type := all, absolute := True\<rparr>)
     = Some (Inr (root_scope True))
   \<and> entry_names_nonempty (Some example_tree)
   \<and> accepts ''*'' [] \<and> accepts [] []
   \<and> pushed (root_scope True) [] = ''/base''
   \<and> find_glob Posix (Some example_tree) (Many [''*'', []])
       ((default_options ''/base'')\<lparr>type := all, absolute := True\<rparr>)
     = Some (Inr [''/base/a.ts'', ''/base/b.js'', ''/base/sub''])
   \<and> ''/base'' \<notin> set [''/base/a.ts'', ''/base/b.js'', ''/base/sub'']
   \<and> find_glob Posix (Some example_tree) (Many [''*'', []])
       ((default_options ''/base'')\<lparr>type := all, absolute := False\<rparr>)
     = Some (Inr [''a.ts'', ''b.js'', ''sub''])"
proof -
  have n: "entry_names_nonempty (Some example_tree)" by code_simp
  have a: "accepts ''*'' [] \<and> accepts [] []" by code_simp
  have f: "find_glob Posix (Some example_tree) (Many [''*'', []])
       ((default_options ''/base'')\<lparr>type := all, absolute := True\<rparr>)
     = Some (Inr [''/base/a.ts'', ''/base/b.js'', ''/base/sub''])" by code_simp
  have g: "find_glob Posix (Some example_tree) (Many [''*'', []])
       ((default_options ''/base'')\<lparr>type := all, absolute := False\<rparr>)
     = Some (Inr [''a.ts'', ''b.js'', ''sub''])" by code_simp
  have p: "pushed (root_scope True) [] = ''/base''"
    using base_never_collected [OF root_build_scope [of "Some example_tree" True] n]
    by (simp add: default_options_def)
  show ?thesis
    using n a f g p root_build_scope [of "Some example_tree" True] by simp
qed

subsection \<open>C10: entries that are neither files nor directories\<close>

text \<open>
  C10. For an entry that is neither a file nor a directory (a symbolic link, whatever it
  points to, a socket, a FIFO, a device) the loop pushes nothing and starts no walk: the
  entry is visited and nothing below it is. Every result of a call comes from a visited entry
  that is a file or a directory, for every entry kind and every pattern.
\<close>

theorem other_entries_skipped:
  assumes "build_scope pf fs patterns opts = Some (Inr sc)"
  shows "(\<not> isFile dirent \<and> \<not> isDirectory dirent \<longrightarrow>
          walk_entries sc ((name, dirent) # rest) ns d = walk_entries sc rest ns d
          \<and> visits_entries sc ((name, dirent) # rest) ns d
              = (ns @ [name], dirent) # visits_entries sc rest ns d)
    \<and> \<not> isFile (Symlink target) \<and> \<not> isDirectory (Symlink target)
    \<and> \<not> isFile Special \<and> \<not> isDirectory Special
    \<and> (\<exists>rs es. find_glob pf fs patterns opts = Some (Inr rs)
          \<and> mset es \<subseteq># mset (visits sc fs [] 0)
          \<and> rs = map (\<lambda>e. pushed sc (fst e)) es
          \<and> (\<forall>e\<in>set es. isFile (snd e) \<or> isDirectory (snd e)))"
proof -
  let ?vs = "visits sc fs [] 0"
  let ?es = "filter (collects sc) ?vs"
  have a: "\<not> isFile dirent \<and> \<not> isDirectory dirent \<longrightarrow>
          walk_entries sc ((name, dirent) # rest) ns d = walk_entries sc rest ns d
          \<and> visits_entries sc ((name, dirent) # rest) ns d
              = (ns @ [name], dirent) # visits_entries sc rest ns d"
    using walk_entries_other [of dirent sc name rest ns d]
      visits_entries_other [of dirent sc name rest ns d]
    by blast
  have rs: "find_glob pf fs patterns opts = Some (Inr (map (\<lambda>e. pushed sc (fst e)) ?es))"
    using find_glob_eq [OF assms] by (simp only: walk_visits)
  have k: "\<forall>e\<in>set ?es. isFile (snd e) \<or> isDirectory (snd e)"
    by (auto simp: collects_def)
  have b: "\<exists>rs es. find_glob pf fs patterns opts = Some (Inr rs)
          \<and> mset es \<subseteq># mset ?vs
          \<and> rs = map (\<lambda>e. pushed sc (fst e)) es
          \<and> (\<forall>e\<in>set es. isFile (snd e) \<or> isDirectory (snd e))"
    using rs k collects_subset [of sc ?vs] by blast
  show ?thesis using a b by simp
qed

theorem other_entries_skipped_witness:
  "build_scope Posix (Some links_tree) (One ''**/*'')
       ((default_options ''/base'')\<lparr>maxDepth := Finite 5, type := all\<rparr>)
     = Some (Inr (depth_scope 5))
   \<and> map fst (visits (depth_scope 5) (Some links_tree) [] 0)
       = [[''link''], [''sock''], [''real''], [''real'', ''x.ts''], [''dangling'']]
   \<and> walk_entries (depth_scope 5)
        [(''link'', Symlink (Some (Dir [(''inner.ts'', File (Inr []))])))] [] 0 = []
   \<and> find_glob Posix (Some links_tree) (One ''**/*'')
       ((default_options ''/base'')\<lparr>maxDepth := Finite 5, type := all\<rparr>)
     = Some (Inr [''real'', ''real/x.ts''])"
proof -
  have v: "map fst (visits (depth_scope 5) (Some links_tree) [] 0)
       = [[''link''], [''sock''], [''real''], [''real'', ''x.ts''], [''dangling'']]"
    by code_simp
  have f: "find_glob Posix (Some links_tree) (One ''**/*'')
       ((default_options ''/base'')\<lparr>maxDepth := Finite 5, type := all\<rparr>)
     = Some (Inr [''real'', ''real/x.ts''])" by code_simp
  let ?link = "Symlink (Some (Dir [(''inner.ts'', File (Inr []))]))"
  have w: "walk_entries (depth_scope 5) [(''link'', ?link)] [] 0 = []"
    using other_entries_skipped [OF depth_build_scope [of "Some links_tree" 5],
        where dirent = ?link and name = "''link''" and rest = "[]" and ns = "[]" and d = 0,
        THEN conjunct1]
    by (simp del: walk_entries.simps(2))
  show ?thesis using v f w depth_build_scope [of "Some links_tree" 5] by simp
qed

end
